theory Spec2Isabelle
  imports Complex_Main "HOL-Library.AList"
begin

section \<open>Data model\<close>

text \<open>
  The embedding follows \<^verbatim>\<open>pagerank.py\<close>. A Python \<^verbatim>\<open>dict\<close> is an association
  list in insertion order (its keys are distinct by construction); a Python \<^verbatim>\<open>set\<close> of
  pages is the list of its elements in iteration order (distinct by construction).
  Exceptions are values of the left summand. Python floats are modelled twice: first as
  exact real numbers, then (the definitions with the suffix \<open>_f64\<close>) as binary64 numbers
  with the rounding of every operation.
\<close>

datatype error = KeyError | ZeroDivisionError | IndexError | ValueError

type_synonym page = string
type_synonym 'v dict = "(page \<times> 'v) list"
type_synonym corpus = "page list dict"

definition DAMPING :: real where
  "DAMPING = 0.85"

definition SAMPLES :: int where
  "SAMPLES = 10000"

text \<open>\<^verbatim>\<open>d[k]\<close> raises KeyError on a missing key.\<close>

definition getitem :: "'v dict \<Rightarrow> page \<Rightarrow> error + 'v" where
  "getitem d k = (case map_of d k of None \<Rightarrow> Inl KeyError | Some v \<Rightarrow> Inr v)"

text \<open>\<^verbatim>\<open>d[k] = v\<close> overwrites in place or appends a new last entry.\<close>

definition setitem :: "'v dict \<Rightarrow> page \<Rightarrow> 'v \<Rightarrow> 'v dict" where
  "setitem d k v = AList.update k v d"

text \<open>\<^verbatim>\<open>dict.fromkeys(keys, v)\<close>.\<close>

definition fromkeys :: "page list \<Rightarrow> 'v \<Rightarrow> 'v dict" where
  "fromkeys ks v = fold (\<lambda>k d. setitem d k v) ks []"

text \<open>The well-formed inputs: a dict of sets, and the Graph invariant of the data model
  (every link target is itself a key).\<close>

definition wf_corpus :: "corpus \<Rightarrow> bool" where
  "wf_corpus corpus \<longleftrightarrow>
     distinct (map fst corpus) \<and> list_all (\<lambda>(p, links). distinct links) corpus"

definition graph_invariant :: "corpus \<Rightarrow> bool" where
  "graph_invariant corpus \<longleftrightarrow>
     list_all (\<lambda>(p, links). list_all (\<lambda>l. l \<in> set (map fst corpus)) links) corpus"

section \<open>transition_model\<close>

definition transition_model :: "corpus \<Rightarrow> page \<Rightarrow> real \<Rightarrow> error + real dict" where
  "transition_model corpus page damping_factor =
     (case getitem corpus page of
        Inl e \<Rightarrow> Inl e
      | Inr links \<Rightarrow>
          let page_links_number = length links;
              corpus_pages = length corpus
          in if page_links_number = 0 then
               Inr (fold (\<lambda>corpus_page pages_prob.
                            setitem pages_prob corpus_page (1 / real corpus_pages))
                         (map fst corpus) [])
             else
               let starting_prob = (1 - damping_factor) / (real page_links_number + 1);
                   pages_prob = fromkeys (map fst corpus) starting_prob
               in Inr (fold (\<lambda>link pages_prob.
                               setitem pages_prob link
                                 (starting_prob + damping_factor / real page_links_number))
                            links pages_prob))"

text \<open>The graph of \<^verbatim>\<open>playground.py\<close>.\<close>

definition pages :: corpus where
  "pages = [(''1.html'', [''2.html'', ''3.html'']), (''2.html'', [''3.html'']),
            (''3.html'', [''2.html'']), (''4.html'', [])]"

section \<open>sample_pagerank\<close>

text \<open>
  The random source is a parameter: \<open>rnd i\<close> is the uniform draw in \<open>[0, 1)\<close> that the
  \<open>i\<close>-th call of the random module consumes. \<^verbatim>\<open>random.choice(seq)\<close> raises IndexError
  on an empty sequence and returns \<^verbatim>\<open>seq[floor(u * len(seq))]\<close> otherwise.
  \<^verbatim>\<open>random.choices(population, weights, k=1)\<close> accumulates the weights, raises
  ValueError when their total is not positive, and returns the first element whose
  cumulative weight exceeds \<^verbatim>\<open>u * total\<close>, the last element at the latest.
\<close>

definition choice :: "real \<Rightarrow> 'a list \<Rightarrow> error + 'a" where
  "choice u seq =
     (if seq = [] then Inl IndexError
      else Inr (seq ! min (nat \<lfloor>u * real (length seq)\<rfloor>) (length seq - 1)))"

fun bisect_pick :: "real \<Rightarrow> real \<Rightarrow> (page \<times> real) list \<Rightarrow> error + page" where
  "bisect_pick x acc [] = Inl IndexError"
| "bisect_pick x acc [(k, w)] = Inr k"
| "bisect_pick x acc ((k, w) # rest) =
     (if x < acc + w then Inr k else bisect_pick x (acc + w) rest)"

definition choices :: "real \<Rightarrow> real dict \<Rightarrow> error + page" where
  "choices u model =
     (if model = [] then Inl IndexError
      else let total = sum_list (map snd model)
           in if total \<le> 0 then Inl ValueError
              else bisect_pick (u * total) 0 model)"

text \<open>The loop \<^verbatim>\<open>for _ in range(0, n)\<close>: \<open>m\<close> iterations remain, \<open>i\<close> draws are used up.\<close>

fun sample_loop ::
  "(nat \<Rightarrow> real) \<Rightarrow> corpus \<Rightarrow> real \<Rightarrow> nat \<Rightarrow> nat \<Rightarrow> int dict \<Rightarrow> page \<Rightarrow> error + int dict" where
  "sample_loop rnd corpus damping_factor i 0 sample_pagerank_dict random_page =
     Inr sample_pagerank_dict"
| "sample_loop rnd corpus damping_factor i (Suc m) sample_pagerank_dict random_page =
     (case transition_model corpus random_page damping_factor of
        Inl e \<Rightarrow> Inl e
      | Inr model \<Rightarrow>
          (case getitem sample_pagerank_dict random_page of
             Inl e \<Rightarrow> Inl e
           | Inr c \<Rightarrow>
               (case choices (rnd i) model of
                  Inl e \<Rightarrow> Inl e
                | Inr next_page \<Rightarrow>
                    sample_loop rnd corpus damping_factor (Suc i) m
                      (setitem sample_pagerank_dict random_page (c + 1)) next_page)))"

definition sample_pagerank :: "(nat \<Rightarrow> real) \<Rightarrow> corpus \<Rightarrow> real \<Rightarrow> int \<Rightarrow> error + real dict" where
  "sample_pagerank rnd corpus damping_factor n =
     (case choice (rnd 0) (map fst corpus) of
        Inl e \<Rightarrow> Inl e
      | Inr random_page \<Rightarrow>
          (case sample_loop rnd corpus damping_factor 1 (nat n)
                  (fromkeys (map fst corpus) 0) random_page of
             Inl e \<Rightarrow> Inl e
           | Inr sample_pagerank_dict \<Rightarrow>
               let total = sum_list (map snd sample_pagerank_dict)
               in if total = 0 then Inl ZeroDivisionError
                  else let total_inverse = 1 / real_of_int total
                       in Inr (fold (\<lambda>(key, val) d. setitem d key (real_of_int val * total_inverse))
                                    sample_pagerank_dict
                                    (map (\<lambda>(key, val). (key, real_of_int val)) sample_pagerank_dict))))"

section \<open>iterate_pagerank\<close>

fun check_dict :: "real dict \<Rightarrow> real dict \<Rightarrow> bool" where
  "check_dict ((k1, v1) # new_dict) ((k2, v2) # old_dict) =
     (if k1 = k2 \<and> v1 - v2 > 0.001 then False else check_dict new_dict old_dict)"
| "check_dict new_dict old_dict = True"

text \<open>The inner loop \<^verbatim>\<open>for link in corpus\<close> that accumulates \<^verbatim>\<open>links_sum\<close>
  for one page.\<close>

fun links_sum_loop ::
  "nat \<Rightarrow> real dict \<Rightarrow> page \<Rightarrow> corpus \<Rightarrow> real \<Rightarrow> error + real" where
  "links_sum_loop num_pages pagerank page [] links_sum = Inr links_sum"
| "links_sum_loop num_pages pagerank page ((link, targets) # rest) links_sum =
     (if page \<in> set targets then
        (case getitem pagerank link of
           Inl e \<Rightarrow> Inl e
         | Inr r \<Rightarrow> links_sum_loop num_pages pagerank page rest
                     (links_sum + r / real (length targets)))
      else if length targets = 0 then
        (case getitem pagerank link of
           Inl e \<Rightarrow> Inl e
         | Inr r \<Rightarrow> links_sum_loop num_pages pagerank page rest
                     (links_sum + r / real num_pages))
      else links_sum_loop num_pages pagerank page rest links_sum)"

text \<open>The outer loop \<^verbatim>\<open>for page in corpus\<close> that fills \<^verbatim>\<open>new_pagerank\<close>.\<close>

fun new_pagerank_loop ::
  "corpus \<Rightarrow> real \<Rightarrow> real dict \<Rightarrow> page list \<Rightarrow> real dict \<Rightarrow> error + real dict" where
  "new_pagerank_loop corpus damping_factor pagerank [] new_pagerank = Inr new_pagerank"
| "new_pagerank_loop corpus damping_factor pagerank (page # rest) new_pagerank =
     (case links_sum_loop (length corpus) pagerank page corpus 0 of
        Inl e \<Rightarrow> Inl e
      | Inr links_sum \<Rightarrow>
          new_pagerank_loop corpus damping_factor pagerank rest
            (setitem new_pagerank page
               ((1 - damping_factor) / real (length corpus) + damping_factor * links_sum)))"

text \<open>The normalisation of \<^verbatim>\<open>new_pagerank\<close>; dividing by a zero sum raises.\<close>

definition normalize :: "real dict \<Rightarrow> error + real dict" where
  "normalize new_pagerank =
     (let total = sum_list (map snd new_pagerank)
      in if total = 0 then Inl ZeroDivisionError
         else let total_inverse = 1 / total
              in Inr (fold (\<lambda>(key, val) d. setitem d key (val * total_inverse))
                           new_pagerank new_pagerank))"

text \<open>One pass of the body of the \<^verbatim>\<open>while\<close> loop up to the convergence check.\<close>

definition iteration :: "corpus \<Rightarrow> real \<Rightarrow> real dict \<Rightarrow> error + real dict" where
  "iteration corpus damping_factor pagerank =
     (case new_pagerank_loop corpus damping_factor pagerank (map fst corpus) [] of
        Inl e \<Rightarrow> Inl e
      | Inr new_pagerank \<Rightarrow> normalize new_pagerank)"

text \<open>The \<^verbatim>\<open>while not converged\<close> loop; \<open>None\<close> is a run that never returns.\<close>

partial_function (option) iterate_loop ::
  "corpus \<Rightarrow> real \<Rightarrow> real dict \<Rightarrow> (error + real dict) option" where
  "iterate_loop corpus damping_factor pagerank =
     (case iteration corpus damping_factor pagerank of
        Inl e \<Rightarrow> Some (Inl e)
      | Inr new_pagerank \<Rightarrow>
          if check_dict new_pagerank pagerank then Some (Inr pagerank)
          else iterate_loop corpus damping_factor new_pagerank)"

definition iterate_pagerank :: "corpus \<Rightarrow> real \<Rightarrow> (error + real dict) option" where
  "iterate_pagerank corpus damping_factor =
     (let num_pages = length corpus
      in if num_pages = 0 then Some (Inl ZeroDivisionError)
         else iterate_loop corpus damping_factor
                (fromkeys (map fst corpus) (1 / real num_pages)))"

text \<open>The values the loop variable \<^verbatim>\<open>pagerank\<close> takes at the head of the
  \<^verbatim>\<open>while\<close> loop during a run of \<^verbatim>\<open>iterate_pagerank\<close>.\<close>

inductive loop_state :: "corpus \<Rightarrow> real \<Rightarrow> real dict \<Rightarrow> bool" where
  initial: "corpus \<noteq> [] \<Longrightarrow>
     loop_state corpus damping_factor (fromkeys (map fst corpus) (1 / real (length corpus)))"
| next_pass: "loop_state corpus damping_factor pagerank \<Longrightarrow>
     iteration corpus damping_factor pagerank = Inr new_pagerank \<Longrightarrow>
     \<not> check_dict new_pagerank pagerank \<Longrightarrow>
     loop_state corpus damping_factor new_pagerank"

code_pred loop_state .

section \<open>Reference formulas\<close>

text \<open>The rank of a page in a mapping, read as a function on pages.\<close>

definition rank_of :: "real dict \<Rightarrow> page \<Rightarrow> real" where
  "rank_of pagerank q = (case map_of pagerank q of None \<Rightarrow> 0 | Some r \<Rightarrow> r)"

text \<open>The sum of the specification's iteration step: over all pages \<open>q\<close> of the graph,
  \<open>rank q / outdegree q\<close> if \<open>q\<close> links to \<open>p\<close>, or \<open>rank q / N\<close> if \<open>q\<close> has outdegree 0.\<close>

definition links_sum_spec :: "corpus \<Rightarrow> (page \<Rightarrow> real) \<Rightarrow> page \<Rightarrow> real" where
  "links_sum_spec corpus rank p =
     (\<Sum>(q, targets)\<leftarrow>corpus.
        if p \<in> set targets then rank q / real (length targets)
        else if length targets = 0 then rank q / real (length corpus)
        else 0)"

definition new_rank_spec :: "corpus \<Rightarrow> real \<Rightarrow> (page \<Rightarrow> real) \<Rightarrow> page \<Rightarrow> real" where
  "new_rank_spec corpus damping rank p =
     (1 - damping) / real (length corpus) + damping * links_sum_spec corpus rank p"

text \<open>The share of the rank of a page with outbound set \<open>targets\<close> that page \<open>p\<close>
  receives in the specification's sum, in a graph of \<open>n\<close> pages.\<close>

definition link_weight :: "nat \<Rightarrow> page list \<Rightarrow> page \<Rightarrow> real" where
  "link_weight n targets p =
     (if p \<in> set targets then 1 / real (length targets)
      else if length targets = 0 then 1 / real n
      else 0)"



text \<open>A random source that returns the same draw every time.\<close>

definition fixed_source :: "real \<Rightarrow> nat \<Rightarrow> real" where
  "fixed_source u i = u"

text \<open>Two small graphs used as concrete inputs.\<close>

definition two_pages :: corpus where
  "two_pages = [(''A'', [''B'']), (''B'', [])]"

definition three_pages :: corpus where
  "three_pages = [(''A'', [''B'', ''C'']), (''B'', [''C'']), (''C'', [''B''])]"

section \<open>Double-precision arithmetic\<close>

text \<open>
  The program computes with IEEE 754 binary64 numbers. The definitions above read every
  float as the real number it stands for and every operation as exact; the definitions of
  this section and the next repeat them with the rounding of the machine. A finite double
  is a real of the form \<open>m * 2 ^ e\<close> with \<open>\<bar>m\<bar> < 2 ^ 53\<close> and \<open>e \<ge> -1074\<close>, and each
  of \<^verbatim>\<open>+\<close>, \<^verbatim>\<open>-\<close>, \<^verbatim>\<open>*\<close>, \<^verbatim>\<open>/\<close> and the conversion of an \<^verbatim>\<open>int\<close>
  returns the exact result rounded to the nearest double, ties to the even significand
  (\<open>f64\<close>). Overflow to infinity, NaN and the sign of zero are not modelled: \<open>f64\<close> does
  not overflow.
\<close>

text \<open>\<^verbatim>\<open>int.bit_length\<close>.\<close>

function bit_length :: "int \<Rightarrow> nat" where
  "bit_length n = (if n \<le> 0 then 0 else Suc (bit_length (n div 2)))"
  by pat_completeness auto
termination
  by (relation "measure nat") auto

declare bit_length.simps [simp del]

text \<open>The binary exponent of a non-zero real: \<open>2 ^ expo x \<le> \<bar>x\<bar> < 2 ^ (expo x + 1)\<close>.\<close>

definition expo :: "real \<Rightarrow> int" where
  "expo x = (if 1 \<le> \<bar>x\<bar> then int (bit_length \<lfloor>\<bar>x\<bar>\<rfloor>) - 1
             else - int (bit_length (\<lceil>1 / \<bar>x\<bar>\<rceil> - 1)))"

text \<open>The nearest integer, a tie going to the even one.\<close>

definition round_half_even :: "real \<Rightarrow> int" where
  "round_half_even q =
     (let f = \<lfloor>q\<rfloor>; r = q - of_int f
      in if r < 1 / 2 then f else if 1 / 2 < r then f + 1 else if even f then f else f + 1)"

text \<open>Rounding to binary64: 53 significant bits, and no bit below \<open>2 ^ -1074\<close>.\<close>

definition f64 :: "real \<Rightarrow> real" where
  "f64 x = (if x = 0 then 0
            else let e = max (expo x - 52) (- 1074)
                 in of_int (round_half_even (x / 2 powi e)) * 2 powi e)"

text \<open>The exponent of the last bit that \<open>f64\<close> keeps.\<close>

definition grid :: "real \<Rightarrow> int" where
  "grid x = max (expo x - 52) (- 1074)"

section \<open>The program on doubles\<close>

text \<open>Every definition of this section carries the name of its exact counterpart with the
  suffix \<open>_f64\<close>, and differs from it only in the rounding of each arithmetic operation of
  the source.\<close>

definition transition_model_f64 :: "corpus \<Rightarrow> page \<Rightarrow> real \<Rightarrow> error + real dict" where
  "transition_model_f64 corpus page damping_factor =
     (case getitem corpus page of
        Inl e \<Rightarrow> Inl e
      | Inr links \<Rightarrow>
          let page_links_number = length links;
              corpus_pages = length corpus
          in if page_links_number = 0 then
               Inr (fold (\<lambda>corpus_page pages_prob.
                            setitem pages_prob corpus_page (f64 (1 / f64 (real corpus_pages))))
                         (map fst corpus) [])
             else
               let starting_prob =
                     f64 (f64 (1 - damping_factor) / f64 (real (page_links_number + 1)));
                   pages_prob = fromkeys (map fst corpus) starting_prob
               in Inr (fold (\<lambda>link pages_prob.
                               setitem pages_prob link
                                 (f64 (starting_prob +
                                       f64 (damping_factor / f64 (real page_links_number)))))
                            links pages_prob))"

text \<open>The builtin \<^verbatim>\<open>sum\<close> on floats: CPython before 3.12 adds from left to right
  (\<open>sum_f64\<close>, which is also what \<^verbatim>\<open>itertools.accumulate\<close> does); CPython 3.12 and later
  add with Neumaier's compensation (\<open>sum_compensated_f64\<close>). Both start from the integer 0.\<close>

definition sum_f64 :: "real list \<Rightarrow> real" where
  "sum_f64 xs = fold (\<lambda>x acc. f64 (acc + x)) xs 0"

definition neumaier_step :: "real \<Rightarrow> real \<times> real \<Rightarrow> real \<times> real" where
  "neumaier_step x =
     (\<lambda>(s, c). let t = f64 (s + x)
               in (t, if \<bar>x\<bar> \<le> \<bar>s\<bar> then f64 (c + f64 (f64 (s - t) + x))
                      else f64 (c + f64 (f64 (x - t) + s))))"

definition sum_compensated_f64 :: "real list \<Rightarrow> real" where
  "sum_compensated_f64 xs =
     (case xs of
        [] \<Rightarrow> 0
      | x # rest \<Rightarrow>
          (case fold neumaier_step rest (f64 x, 0) of
             (s, c) \<Rightarrow> if c \<noteq> 0 then f64 (s + c) else s))"

text \<open>\<^verbatim>\<open>random.choices\<close> with the cumulative weights, their total and the product
  \<^verbatim>\<open>random() * total\<close> rounded.\<close>

fun bisect_pick_f64 :: "real \<Rightarrow> real \<Rightarrow> (page \<times> real) list \<Rightarrow> error + page" where
  "bisect_pick_f64 x acc [] = Inl IndexError"
| "bisect_pick_f64 x acc [(k, w)] = Inr k"
| "bisect_pick_f64 x acc ((k, w) # rest) =
     (if x < f64 (acc + w) then Inr k else bisect_pick_f64 x (f64 (acc + w)) rest)"

definition choices_f64 :: "real \<Rightarrow> real dict \<Rightarrow> error + page" where
  "choices_f64 u model =
     (if model = [] then Inl IndexError
      else let total = f64 (sum_f64 (map snd model) + 0)
           in if total \<le> 0 then Inl ValueError
              else bisect_pick_f64 (f64 (u * total)) 0 model)"

fun sample_loop_f64 ::
  "(nat \<Rightarrow> real) \<Rightarrow> corpus \<Rightarrow> real \<Rightarrow> nat \<Rightarrow> nat \<Rightarrow> int dict \<Rightarrow> page \<Rightarrow> error + int dict" where
  "sample_loop_f64 rnd corpus damping_factor i 0 sample_pagerank_dict random_page =
     Inr sample_pagerank_dict"
| "sample_loop_f64 rnd corpus damping_factor i (Suc m) sample_pagerank_dict random_page =
     (case transition_model_f64 corpus random_page damping_factor of
        Inl e \<Rightarrow> Inl e
      | Inr model \<Rightarrow>
          (case getitem sample_pagerank_dict random_page of
             Inl e \<Rightarrow> Inl e
           | Inr c \<Rightarrow>
               (case choices_f64 (rnd i) model of
                  Inl e \<Rightarrow> Inl e
                | Inr next_page \<Rightarrow>
                    sample_loop_f64 rnd corpus damping_factor (Suc i) m
                      (setitem sample_pagerank_dict random_page (c + 1)) next_page)))"

definition sample_pagerank_f64 :: "(nat \<Rightarrow> real) \<Rightarrow> corpus \<Rightarrow> real \<Rightarrow> int \<Rightarrow> error + real dict" where
  "sample_pagerank_f64 rnd corpus damping_factor n =
     (case choice (rnd 0) (map fst corpus) of
        Inl e \<Rightarrow> Inl e
      | Inr random_page \<Rightarrow>
          (case sample_loop_f64 rnd corpus damping_factor 1 (nat n)
                  (fromkeys (map fst corpus) 0) random_page of
             Inl e \<Rightarrow> Inl e
           | Inr sample_pagerank_dict \<Rightarrow>
               let total = sum_list (map snd sample_pagerank_dict)
               in if total = 0 then Inl ZeroDivisionError
                  else let total_inverse = f64 (1 / f64 (real_of_int total))
                       in Inr (fold (\<lambda>(key, val) d.
                                       setitem d key (f64 (f64 (real_of_int val) * total_inverse)))
                                    sample_pagerank_dict
                                    (map (\<lambda>(key, val). (key, real_of_int val)) sample_pagerank_dict))))"

text \<open>The loops of \<^verbatim>\<open>iterate_pagerank\<close>; the builtin \<^verbatim>\<open>sum\<close> of the normalisation is
  the parameter \<open>float_sum\<close>.\<close>

fun check_dict_f64 :: "real dict \<Rightarrow> real dict \<Rightarrow> bool" where
  "check_dict_f64 ((k1, v1) # new_dict) ((k2, v2) # old_dict) =
     (if k1 = k2 \<and> f64 (v1 - v2) > f64 0.001 then False else check_dict_f64 new_dict old_dict)"
| "check_dict_f64 new_dict old_dict = True"

fun links_sum_loop_f64 ::
  "nat \<Rightarrow> real dict \<Rightarrow> page \<Rightarrow> corpus \<Rightarrow> real \<Rightarrow> error + real" where
  "links_sum_loop_f64 num_pages pagerank page [] links_sum = Inr links_sum"
| "links_sum_loop_f64 num_pages pagerank page ((link, targets) # rest) links_sum =
     (if page \<in> set targets then
        (case getitem pagerank link of
           Inl e \<Rightarrow> Inl e
         | Inr r \<Rightarrow> links_sum_loop_f64 num_pages pagerank page rest
                     (f64 (links_sum + f64 (r / f64 (real (length targets))))))
      else if length targets = 0 then
        (case getitem pagerank link of
           Inl e \<Rightarrow> Inl e
         | Inr r \<Rightarrow> links_sum_loop_f64 num_pages pagerank page rest
                     (f64 (links_sum + f64 (r / f64 (real num_pages)))))
      else links_sum_loop_f64 num_pages pagerank page rest links_sum)"

fun new_pagerank_loop_f64 ::
  "corpus \<Rightarrow> real \<Rightarrow> real dict \<Rightarrow> page list \<Rightarrow> real dict \<Rightarrow> error + real dict" where
  "new_pagerank_loop_f64 corpus damping_factor pagerank [] new_pagerank = Inr new_pagerank"
| "new_pagerank_loop_f64 corpus damping_factor pagerank (page # rest) new_pagerank =
     (case links_sum_loop_f64 (length corpus) pagerank page corpus 0 of
        Inl e \<Rightarrow> Inl e
      | Inr links_sum \<Rightarrow>
          new_pagerank_loop_f64 corpus damping_factor pagerank rest
            (setitem new_pagerank page
               (f64 (f64 (f64 (1 - damping_factor) / f64 (real (length corpus))) +
                     f64 (damping_factor * links_sum)))))"

definition normalize_f64 :: "(real list \<Rightarrow> real) \<Rightarrow> real dict \<Rightarrow> error + real dict" where
  "normalize_f64 float_sum new_pagerank =
     (let total = float_sum (map snd new_pagerank)
      in if total = 0 then Inl ZeroDivisionError
         else let total_inverse = f64 (1 / total)
              in Inr (fold (\<lambda>(key, val) d. setitem d key (f64 (val * total_inverse)))
                           new_pagerank new_pagerank))"

definition iteration_f64 ::
  "(real list \<Rightarrow> real) \<Rightarrow> corpus \<Rightarrow> real \<Rightarrow> real dict \<Rightarrow> error + real dict" where
  "iteration_f64 float_sum corpus damping_factor pagerank =
     (case new_pagerank_loop_f64 corpus damping_factor pagerank (map fst corpus) [] of
        Inl e \<Rightarrow> Inl e
      | Inr new_pagerank \<Rightarrow> normalize_f64 float_sum new_pagerank)"

partial_function (option) iterate_loop_f64 ::
  "(real list \<Rightarrow> real) \<Rightarrow> corpus \<Rightarrow> real \<Rightarrow> real dict \<Rightarrow> (error + real dict) option" where
  "iterate_loop_f64 float_sum corpus damping_factor pagerank =
     (case iteration_f64 float_sum corpus damping_factor pagerank of
        Inl e \<Rightarrow> Some (Inl e)
      | Inr new_pagerank \<Rightarrow>
          if check_dict_f64 new_pagerank pagerank then Some (Inr pagerank)
          else iterate_loop_f64 float_sum corpus damping_factor new_pagerank)"

definition iterate_pagerank_f64 ::
  "(real list \<Rightarrow> real) \<Rightarrow> corpus \<Rightarrow> real \<Rightarrow> (error + real dict) option" where
  "iterate_pagerank_f64 float_sum corpus damping_factor =
     (let num_pages = length corpus
      in if num_pages = 0 then Some (Inl ZeroDivisionError)
         else iterate_loop_f64 float_sum corpus damping_factor
                (fromkeys (map fst corpus) (f64 (1 / f64 (real num_pages)))))"

text \<open>The pages a random walk of \<open>m\<close> steps is on, in order, when it starts on
  \<open>current\<close> and draws each next page from the transition model; and the number of times it
  is on a page.\<close>

fun walk_f64 :: "(nat \<Rightarrow> real) \<Rightarrow> corpus \<Rightarrow> real \<Rightarrow> nat \<Rightarrow> page \<Rightarrow> nat \<Rightarrow> page list" where
  "walk_f64 rnd corpus damping i current 0 = []"
| "walk_f64 rnd corpus damping i current (Suc m) =
     current #
     (case transition_model_f64 corpus current damping of
        Inl e \<Rightarrow> []
      | Inr model \<Rightarrow>
          (case choices_f64 (rnd i) model of
             Inl e \<Rightarrow> []
           | Inr next_page \<Rightarrow> walk_f64 rnd corpus damping (Suc i) next_page m))"

definition visits :: "page list \<Rightarrow> page \<Rightarrow> int" where
  "visits walk p = int (count_list walk p)"


definition one_page :: corpus where
  "one_page = [(''A'', [])]"


section \<open>Dictionaries\<close>

lemma update_absent_append:
  "k \<notin> fst ` set al \<Longrightarrow> AList.update k v al = al @ [(k, v)]"
  by (induction al) auto

lemma fold_setitem_fresh:
  "distinct ks \<Longrightarrow> set ks \<inter> fst ` set acc = {} \<Longrightarrow>
   fold (\<lambda>k d. setitem d k (f k)) ks acc = acc @ map (\<lambda>k. (k, f k)) ks"
proof (induction ks arbitrary: acc)
  case Nil
  then show ?case by simp
next
  case (Cons k ks)
  have k: "k \<notin> fst ` set acc" using Cons.prems(2) by auto
  have step: "setitem acc k (f k) = acc @ [(k, f k)]"
    by (simp add: setitem_def update_absent_append [OF k])
  have "set ks \<inter> fst ` set (acc @ [(k, f k)]) = {}"
    using Cons.prems by auto
  with Cons.IH [of "acc @ [(k, f k)]"] Cons.prems(1) step
  show ?case by simp
qed

lemma fromkeys_distinct:
  "distinct ks \<Longrightarrow> fromkeys ks v = map (\<lambda>k. (k, v)) ks"
  using fold_setitem_fresh [of ks "[]" "\<lambda>_. v"] by (simp add: fromkeys_def)

lemma dict_eqI:
  "map fst xs = map fst ys \<Longrightarrow> distinct (map fst xs) \<Longrightarrow>
   (\<And>k. k \<in> set (map fst xs) \<Longrightarrow> map_of xs k = map_of ys k) \<Longrightarrow> xs = ys"
proof (induction xs arbitrary: ys)
  case Nil
  then show ?case by simp
next
  case (Cons x xs)
  then obtain y ys' where ys: "ys = y # ys'" by (cases ys) auto
  have fx: "fst x = fst y" and keys: "map fst xs = map fst ys'"
    using Cons.prems(1) ys by auto
  have "map_of (x # xs) (fst x) = map_of ys (fst x)"
    using Cons.prems(3) [of "fst x"] by simp
  then have "snd x = snd y" using ys fx by (cases x; cases y) auto
  with fx have xy: "x = y" by (simp add: prod_eq_iff)
  have "xs = ys'"
  proof (rule Cons.IH [OF keys])
    show "distinct (map fst xs)" using Cons.prems(2) by simp
  next
    fix k assume k: "k \<in> set (map fst xs)"
    then have "k \<noteq> fst x" using Cons.prems(2) by force
    moreover have "map_of (x # xs) k = map_of ys k"
      using Cons.prems(3) [of k] k by simp
    ultimately show "map_of xs k = map_of ys' k"
      using ys xy by (cases x) (auto split: if_splits)
  qed
  with xy ys show ?case by simp
qed

lemma keys_setitem_present:
  "k \<in> fst ` set d \<Longrightarrow> map fst (setitem d k v) = map fst d"
  by (simp add: setitem_def update_keys)

lemma map_of_setitem:
  "map_of (setitem d k v) = (map_of d)(k \<mapsto> v)"
  by (rule ext) (simp add: setitem_def update_conv')

lemma set_update_subset: "set (AList.update k v al) \<subseteq> insert (k, v) (set al)"
  by (induction al) auto

lemma fold_setitem_const_values:
  "\<forall>x\<in>set acc. snd x = c \<Longrightarrow> \<forall>x\<in>set (fold (\<lambda>k d. setitem d k c) ks acc). snd x = c"
proof (induction ks arbitrary: acc)
  case Nil
  then show ?case by simp
next
  case (Cons k ks)
  have "\<forall>x\<in>set (setitem acc k c). snd x = c"
    using Cons.prems set_update_subset [of k c acc] by (auto simp: setitem_def)
  from Cons.IH [OF this] show ?case by simp
qed

lemma fromkeys_values: "\<forall>x\<in>set (fromkeys ks c). snd x = c"
  using fold_setitem_const_values [of "[]" c ks] by (simp add: fromkeys_def)

lemma sum_list_all_zero: "\<forall>x\<in>set xs. snd x = (0::int) \<Longrightarrow> sum_list (map snd xs) = 0"
  by (induction xs) auto

lemma sum_list_fromkeys_zero: "sum_list (map snd (fromkeys ks (0::int))) = 0"
  by (rule sum_list_all_zero) (rule fromkeys_values)

lemma iteration_two_pages:
  "iteration two_pages 0.001 [(''A'', 1 / 2), (''B'', 1 / 2)] =
     Inr [(''A'', 1999 / 4000), (''B'', 2001 / 4000)]"
  by (simp add: iteration_def two_pages_def normalize_def getitem_def setitem_def Let_def)

section \<open>transition_model: results\<close>

text \<open>
  In exact arithmetic, on the graph of \<^verbatim>\<open>playground.py\<close> (pages A, B, C, D are
  \<^verbatim>\<open>1.html\<close> to \<^verbatim>\<open>4.html\<close>) with damping 0.85, the transition model of page A is
  \<open>{A: 0.05, B: 0.475, C: 0.475, D: 0.05}\<close> and that of page B is
  \<open>{A: 0.075, B: 0.075, C: 0.925, D: 0.075}\<close>.
\<close>

theorem transition_model_playground:
  "transition_model pages ''1.html'' 0.85 =
     Inr [(''1.html'', 0.05), (''2.html'', 0.475), (''3.html'', 0.475), (''4.html'', 0.05)] \<and>
   transition_model pages ''2.html'' 0.85 =
     Inr [(''1.html'', 0.075), (''2.html'', 0.075), (''3.html'', 0.925), (''4.html'', 0.075)]"
  by (simp add: transition_model_def pages_def getitem_def setitem_def fromkeys_def Let_def)

text \<open>
  Claim C1 says that the values of the transition model sum to 1. On the graph of
  \<^verbatim>\<open>playground.py\<close>, from page \<^verbatim>\<open>1.html\<close> with the default damping, the values
  returned sum to 1.05: the base probability \<open>(1 - damping) / (k + 1)\<close> goes to all four
  pages, not to \<open>k + 1 = 3\<close> of them.
\<close>

theorem transition_model_mass_playground:
  "(case transition_model pages ''1.html'' DAMPING of
      Inl e \<Rightarrow> False
    | Inr pages_prob \<Rightarrow> sum_list (map snd pages_prob) = 1.05)"
  by (simp add: transition_model_def pages_def getitem_def setitem_def fromkeys_def Let_def
      DAMPING_def)

text \<open>
  Claim C8. For a source page whose outbound set is empty, the transition model is the
  uniform distribution: every page of the graph, in the graph's order, with probability
  \<open>1 / |graph|\<close>.
\<close>

theorem transition_model_dangling:
  assumes "distinct (map fst corpus)" and "getitem corpus page = Inr []"
  shows "transition_model corpus page damping_factor =
           Inr (map (\<lambda>p. (p, 1 / real (length corpus))) (map fst corpus))"
  using assms fold_setitem_fresh [of "map fst corpus" "[]" "\<lambda>_. 1 / real (length corpus)"]
  by (simp add: transition_model_def)

theorem transition_model_dangling_witness:
  "distinct (map fst pages) \<and> getitem pages ''4.html'' = Inr [] \<and>
   transition_model pages ''4.html'' DAMPING =
     Inr [(''1.html'', 1 / 4), (''2.html'', 1 / 4), (''3.html'', 1 / 4), (''4.html'', 1 / 4)]"
  using transition_model_dangling [of pages "''4.html''" DAMPING]
  by (simp add: pages_def getitem_def)

section \<open>sample_pagerank: results\<close>

text \<open>
  Claim C3 says that a sample count \<open>n \<le> 0\<close> is rejected with an invalid-argument error.
  With \<open>n = 0\<close> on the graph of \<^verbatim>\<open>playground.py\<close> the call fails, but with the
  ZeroDivisionError of the normalisation, not with ValueError.
\<close>

theorem sample_pagerank_zero_samples:
  "sample_pagerank (fixed_source 0) pages DAMPING 0 = Inl ZeroDivisionError \<and>
   sample_pagerank (fixed_source 0) pages DAMPING 0 \<noteq> Inl ValueError"
  by (simp add: sample_pagerank_def choice_def pages_def fromkeys_def setitem_def)

text \<open>
  Claim C3, amended. For every graph, every damping factor and every random source, a
  sample count \<open>n \<le> 0\<close> makes \<^verbatim>\<open>sample_pagerank\<close> fail without returning a mapping:
  on a non-empty graph with ZeroDivisionError (no sample is taken, every counter stays 0,
  and the division by their total raises), on the empty graph with the IndexError of
  \<^verbatim>\<open>random.choice\<close>.
\<close>

theorem sample_pagerank_nonpositive:
  assumes "n \<le> 0"
  shows "sample_pagerank rnd corpus damping_factor n =
           Inl (if corpus = [] then IndexError else ZeroDivisionError)"
proof (cases "corpus = []")
  case True
  then show ?thesis by (simp add: sample_pagerank_def choice_def)
next
  case False
  have "choice (rnd 0) (map fst corpus) =
          Inr (map fst corpus ! min (nat \<lfloor>rnd 0 * real (length corpus)\<rfloor>) (length corpus - 1))"
    using False by (simp add: choice_def)
  moreover have "nat n = 0" using assms by simp
  ultimately show ?thesis
    using False by (simp add: sample_pagerank_def sum_list_fromkeys_zero)
qed

theorem sample_pagerank_nonpositive_witness:
  "(-3::int) \<le> 0 \<and>
   sample_pagerank (fixed_source 0) pages DAMPING (-3) = Inl ZeroDivisionError \<and>
   sample_pagerank (fixed_source 0) [] DAMPING (-3) = Inl IndexError"
  using sample_pagerank_nonpositive [of "-3" "fixed_source 0" pages DAMPING]
    sample_pagerank_nonpositive [of "-3" "fixed_source 0" "[]" DAMPING]
  by (simp add: pages_def)

section \<open>iterate_pagerank: results\<close>

text \<open>
  Claim C2 says that convergence is declared exactly when every page changes by at most
  0.001 in absolute value. \<^verbatim>\<open>check_dict\<close> tests the signed difference \<open>new - old\<close> only:
  a page whose rank drops from 0.5 to 0 still passes the check.
\<close>

theorem check_dict_one_sided:
  "check_dict [(''A'', 0)] [(''A'', 0.5)] \<and> \<bar>0 - 0.5\<bar> > (0.001 :: real)"
  by simp

text \<open>
  Claim C7. When the check of a pass succeeds, the loop returns the mapping it held
  before that pass, not the mapping the pass has just computed and normalised.
\<close>

theorem iterate_loop_returns_previous:
  assumes "iteration corpus damping_factor pagerank = Inr new_pagerank"
    and "check_dict new_pagerank pagerank"
  shows "iterate_loop corpus damping_factor pagerank = Some (Inr pagerank)"
  using assms by (subst iterate_loop.simps) simp

theorem iterate_loop_returns_previous_witness:
  "iteration two_pages 0.001 [(''A'', 1 / 2), (''B'', 1 / 2)] =
     Inr [(''A'', 1999 / 4000), (''B'', 2001 / 4000)] \<and>
   check_dict [(''A'', 1999 / 4000), (''B'', 2001 / 4000)] [(''A'', 1 / 2), (''B'', 1 / 2)] \<and>
   iterate_loop two_pages 0.001 [(''A'', 1 / 2), (''B'', 1 / 2)] =
     Some (Inr [(''A'', 1 / 2), (''B'', 1 / 2)]) \<and>
   [(''A'', 1999 / 4000), (''B'', 2001 / 4000)] \<noteq> [(''A'', 1 / 2), (''B'', 1 / 2 :: real)]"
proof -
  have c: "check_dict [(''A'', 1999 / 4000), (''B'', 2001 / 4000)] [(''A'', 1 / 2), (''B'', 1 / 2)]"
    by simp
  show ?thesis
    using iterate_loop_returns_previous [OF iteration_two_pages c] iteration_two_pages c
    by simp
qed

section \<open>The loops of iterate_pagerank as formulas\<close>

lemma fold_setitem_keys_present:
  "fst ` set xs \<subseteq> fst ` set d \<Longrightarrow>
   map fst (fold (\<lambda>(k, v) d. setitem d k (g k v)) xs d) = map fst d"
proof (induction xs arbitrary: d)
  case Nil
  then show ?case by simp
next
  case (Cons x xs)
  obtain k v where x: "x = (k, v)" by (cases x)
  have k: "k \<in> fst ` set d" using Cons.prems x by auto
  have keys: "map fst (setitem d k (g k v)) = map fst d"
    by (rule keys_setitem_present [OF k])
  then have "fst ` set (setitem d k (g k v)) = fst ` set d"
    by (metis list.set_map)
  with Cons.prems have "fst ` set xs \<subseteq> fst ` set (setitem d k (g k v))" by auto
  from Cons.IH [OF this] keys x show ?case by simp
qed

lemma fold_setitem_map_of:
  "distinct (map fst xs) \<Longrightarrow>
   map_of (fold (\<lambda>(k, v) d. setitem d k (g k v)) xs d) k' =
     (case map_of xs k' of None \<Rightarrow> map_of d k' | Some v \<Rightarrow> Some (g k' v))"
proof (induction xs arbitrary: d)
  case Nil
  then show ?case by simp
next
  case (Cons x xs)
  obtain k v where x: "x = (k, v)" by (cases x)
  have d: "distinct (map fst xs)" and fresh: "map_of xs k = None"
    using Cons.prems x by (auto simp: map_of_eq_None_iff)
  show ?case
    using Cons.IH [OF d, of "setitem d k (g k v)"] fresh x
    by (auto simp: map_of_setitem split: option.splits)
qed

lemma fold_setitem_in_place:
  assumes "distinct (map fst xs)" and "map fst d = map fst xs"
  shows "fold (\<lambda>(k, v) d. setitem d k (g k v)) xs d = map (\<lambda>(k, v). (k, g k v)) xs"
proof (rule dict_eqI)
  have sub: "fst ` set xs \<subseteq> fst ` set d"
    using assms(2) by (metis list.set_map order_refl)
  show keys: "map fst (fold (\<lambda>(k, v) d. setitem d k (g k v)) xs d) =
          map fst (map (\<lambda>(k, v). (k, g k v)) xs)"
    using fold_setitem_keys_present [OF sub, of g] assms(2)
    by (simp add: case_prod_unfold comp_def)
  show "distinct (map fst (fold (\<lambda>(k, v) d. setitem d k (g k v)) xs d))"
    using fold_setitem_keys_present [OF sub, of g] assms by simp
  fix k'
  assume "k' \<in> set (map fst (fold (\<lambda>(k, v) d. setitem d k (g k v)) xs d))"
  then have "k' \<in> fst ` set xs"
    using fold_setitem_keys_present [OF sub, of g] assms(2) by (metis list.set_map)
  then obtain v where v: "map_of xs k' = Some v"
    by (metis domD dom_map_of_conv_image_fst)
  have "map_of (map (\<lambda>(k, v). (k, g k v)) xs) k' = Some (g k' v)"
    using v by (induction xs) (auto split: if_splits)
  then show "map_of (fold (\<lambda>(k, v) d. setitem d k (g k v)) xs d) k' =
             map_of (map (\<lambda>(k, v). (k, g k v)) xs) k'"
    using fold_setitem_map_of [OF assms(1), of g d k'] v by simp
qed

lemma normalize_distinct:
  assumes "distinct (map fst new_pagerank)" and "sum_list (map snd new_pagerank) \<noteq> 0"
  shows "normalize new_pagerank =
           Inr (map (\<lambda>(k, v). (k, v * (1 / sum_list (map snd new_pagerank)))) new_pagerank)"
  using assms fold_setitem_in_place [OF assms(1) refl,
      of "\<lambda>k v. v * (1 / sum_list (map snd new_pagerank))"]
  by (simp add: normalize_def Let_def)

lemma normalize_keys:
  assumes "distinct (map fst new_pagerank)" and "normalize new_pagerank = Inr r"
  shows "map fst r = map fst new_pagerank"
proof -
  have nz: "sum_list (map snd new_pagerank) \<noteq> 0"
    using assms(2) by (auto simp: normalize_def Let_def split: if_splits)
  show ?thesis
    using normalize_distinct [OF assms(1) nz] assms(2)
    by (auto simp: case_prod_unfold comp_def)
qed

lemma new_pagerank_loop_keys:
  "new_pagerank_loop corpus damping_factor pagerank ks acc = Inr new_pagerank \<Longrightarrow>
   distinct ks \<Longrightarrow> set ks \<inter> fst ` set acc = {} \<Longrightarrow>
   map fst new_pagerank = map fst acc @ ks"
proof (induction ks arbitrary: acc)
  case Nil
  then show ?case by simp
next
  case (Cons k ks)
  from Cons.prems(1) obtain links_sum where
    run: "new_pagerank_loop corpus damping_factor pagerank ks
            (setitem acc k ((1 - damping_factor) / real (length corpus) + damping_factor * links_sum))
          = Inr new_pagerank"
    by (auto split: sum.splits)
  let ?v = "(1 - damping_factor) / real (length corpus) + damping_factor * links_sum"
  have k: "k \<notin> fst ` set acc" using Cons.prems(3) by auto
  have step: "setitem acc k ?v = acc @ [(k, ?v)]"
    by (simp add: setitem_def update_absent_append [OF k])
  have "set ks \<inter> fst ` set (acc @ [(k, ?v)]) = {}" using Cons.prems by auto
  with Cons.IH [of "acc @ [(k, ?v)]"] run step Cons.prems(2) show ?case by simp
qed

lemma iteration_keys:
  assumes "distinct (map fst corpus)" and "iteration corpus damping_factor pagerank = Inr new_pagerank"
  shows "map fst new_pagerank = map fst corpus"
proof -
  from assms(2) obtain raw where
    raw: "new_pagerank_loop corpus damping_factor pagerank (map fst corpus) [] = Inr raw"
    and norm: "normalize raw = Inr new_pagerank"
    by (auto simp: iteration_def split: sum.splits)
  have keys: "map fst raw = map fst corpus"
    using new_pagerank_loop_keys [OF raw assms(1)] by simp
  with normalize_keys [of raw new_pagerank] norm assms(1) show ?thesis by simp
qed

lemma loop_state_keys:
  "loop_state corpus damping_factor pagerank \<Longrightarrow> distinct (map fst corpus) \<Longrightarrow>
   map fst pagerank = map fst corpus"
proof (induction rule: loop_state.induct)
  case (initial corpus damping_factor)
  then show ?case by (simp add: fromkeys_distinct comp_def)
next
  case (next_pass corpus damping_factor pagerank new_pagerank)
  then show ?case using iteration_keys by blast
qed

lemma getitem_present:
  "k \<in> fst ` set d \<Longrightarrow> getitem d k = Inr (rank_of d k)"
proof -
  assume "k \<in> fst ` set d"
  then obtain v where "map_of d k = Some v"
    by (metis domD dom_map_of_conv_image_fst)
  then show ?thesis by (simp add: getitem_def rank_of_def)
qed

lemma links_sum_loop_spec:
  "fst ` set rest \<subseteq> fst ` set pagerank \<Longrightarrow>
   links_sum_loop n pagerank page rest acc =
     Inr (acc + (\<Sum>(q, targets)\<leftarrow>rest.
            if page \<in> set targets then rank_of pagerank q / real (length targets)
            else if length targets = 0 then rank_of pagerank q / real n
            else 0))"
proof (induction rest arbitrary: acc)
  case Nil
  then show ?case by simp
next
  case (Cons x rest)
  obtain q targets where x: "x = (q, targets)" by (cases x)
  have q: "getitem pagerank q = Inr (rank_of pagerank q)"
    using Cons.prems x by (intro getitem_present) auto
  have sub: "fst ` set rest \<subseteq> fst ` set pagerank" using Cons.prems by auto
  show ?case
    using Cons.IH [OF sub] q x by (simp add: add.assoc)
qed

lemma new_pagerank_loop_spec:
  assumes "fst ` set corpus \<subseteq> fst ` set pagerank"
  shows "distinct ks \<Longrightarrow> set ks \<inter> fst ` set acc = {} \<Longrightarrow>
         new_pagerank_loop corpus damping pagerank ks acc =
           Inr (acc @ map (\<lambda>p. (p, new_rank_spec corpus damping (rank_of pagerank) p)) ks)"
proof (induction ks arbitrary: acc)
  case Nil
  then show ?case by simp
next
  case (Cons k ks)
  let ?v = "new_rank_spec corpus damping (rank_of pagerank) k"
  have ls: "links_sum_loop (length corpus) pagerank k corpus 0 =
              Inr (links_sum_spec corpus (rank_of pagerank) k)"
    using links_sum_loop_spec [OF assms, of "length corpus" k 0]
    by (simp add: links_sum_spec_def)
  have k: "k \<notin> fst ` set acc" using Cons.prems(2) by auto
  have step: "setitem acc k ?v = acc @ [(k, ?v)]"
    by (simp add: setitem_def update_absent_append [OF k])
  have "set ks \<inter> fst ` set (acc @ [(k, ?v)]) = {}" using Cons.prems by auto
  with Cons.IH [of "acc @ [(k, ?v)]"] Cons.prems(1)
  have "new_pagerank_loop corpus damping pagerank ks (acc @ [(k, ?v)]) =
          Inr ((acc @ [(k, ?v)]) @ map (\<lambda>p. (p, new_rank_spec corpus damping (rank_of pagerank) p)) ks)"
    by simp
  then show ?case using ls step by (simp add: new_rank_spec_def)
qed

lemma rank_of_Cons:
  "rank_of ((k, v) # d) k' = (if k' = k then v else rank_of d k')"
  by (simp add: rank_of_def)

lemma check_dict_same_keys:
  "map fst new_dict = map fst old_dict \<Longrightarrow> distinct (map fst old_dict) \<Longrightarrow>
   check_dict new_dict old_dict \<longleftrightarrow>
     (\<forall>k\<in>set (map fst old_dict). rank_of new_dict k - rank_of old_dict k \<le> 0.001)"
proof (induction new_dict old_dict rule: check_dict.induct)
  case (1 k1 v1 new_dict k2 v2 old_dict)
  have eq: "k1 = k2" and keys: "map fst new_dict = map fst old_dict"
    and d: "distinct (map fst old_dict)" and fresh: "k2 \<notin> fst ` set old_dict"
    using "1.prems" by auto
  have tail: "\<And>k. k \<in> set (map fst old_dict) \<Longrightarrow>
      rank_of ((k1, v1) # new_dict) k = rank_of new_dict k \<and>
      rank_of ((k2, v2) # old_dict) k = rank_of old_dict k"
    using fresh eq by (auto simp: rank_of_Cons)
  show ?case
  proof (cases "v1 - v2 > 0.001")
    case True
    then show ?thesis using eq by (auto simp: rank_of_Cons)
  next
    case False
    then have "check_dict ((k1, v1) # new_dict) ((k2, v2) # old_dict) = check_dict new_dict old_dict"
      by simp
    also have "\<dots> = (\<forall>k\<in>set (map fst old_dict). rank_of new_dict k - rank_of old_dict k \<le> 0.001)"
      using "1.IH" False keys d by simp
    also have "\<dots> = (\<forall>k\<in>set (map fst ((k2, v2) # old_dict)).
        rank_of ((k1, v1) # new_dict) k - rank_of ((k2, v2) # old_dict) k \<le> 0.001)"
      using False eq tail by (auto simp: rank_of_Cons)
    finally show ?thesis .
  qed
qed simp_all

lemma loop_state_nonempty:
  "loop_state corpus damping_factor pagerank \<Longrightarrow> corpus \<noteq> []"
  by (induction rule: loop_state.induct) auto

lemma loop_state_two_pages:
  "loop_state two_pages 0.001 [(''A'', 1 / 2), (''B'', 1 / 2)]"
  using loop_state.initial [of two_pages "0.001"]
  by (simp add: two_pages_def fromkeys_def setitem_def)

text \<open>
  Claim C10. In every run of \<^verbatim>\<open>iterate_pagerank\<close> on a dict, the mapping held at the
  head of the loop and the mapping computed from it list their keys in the order of the
  corpus. So the positional pairs that \<^verbatim>\<open>check_dict\<close> examines have equal keys, one pair
  for every page of the corpus, and the positional check is the check by key.
\<close>

theorem check_dict_pairs_cover_corpus:
  assumes "distinct (map fst corpus)"
    and "loop_state corpus damping_factor pagerank"
    and "iteration corpus damping_factor pagerank = Inr new_pagerank"
  shows "map fst pagerank = map fst corpus \<and> map fst new_pagerank = map fst corpus \<and>
         map (\<lambda>(new_item, old_item). fst new_item) (zip new_pagerank pagerank) = map fst corpus \<and>
         map (\<lambda>(new_item, old_item). fst old_item) (zip new_pagerank pagerank) = map fst corpus \<and>
         (check_dict new_pagerank pagerank \<longleftrightarrow>
            (\<forall>p\<in>set (map fst corpus). rank_of new_pagerank p - rank_of pagerank p \<le> 0.001))"
proof -
  have old: "map fst pagerank = map fst corpus"
    by (rule loop_state_keys [OF assms(2) assms(1)])
  have new: "map fst new_pagerank = map fst corpus"
    by (rule iteration_keys [OF assms(1) assms(3)])
  have len: "length new_pagerank = length pagerank"
    using old new by (metis length_map)
  have "map (\<lambda>(new_item, old_item). fst new_item) (zip new_pagerank pagerank) =
          map fst (map fst (zip new_pagerank pagerank))"
    by (simp add: case_prod_unfold comp_def)
  then have z1: "map (\<lambda>(new_item, old_item). fst new_item) (zip new_pagerank pagerank) = map fst corpus"
    using len new by simp
  have "map (\<lambda>(new_item, old_item). fst old_item) (zip new_pagerank pagerank) =
          map fst (map snd (zip new_pagerank pagerank))"
    by (simp add: case_prod_unfold comp_def)
  then have z2: "map (\<lambda>(new_item, old_item). fst old_item) (zip new_pagerank pagerank) = map fst corpus"
    using len old by simp
  have "check_dict new_pagerank pagerank \<longleftrightarrow>
          (\<forall>p\<in>set (map fst pagerank). rank_of new_pagerank p - rank_of pagerank p \<le> 0.001)"
    using check_dict_same_keys [of new_pagerank pagerank] old new assms(1) by simp
  with old new z1 z2 show ?thesis by simp
qed

theorem check_dict_pairs_cover_corpus_witness:
  "distinct (map fst two_pages) \<and>
   loop_state two_pages 0.001 [(''A'', 1 / 2), (''B'', 1 / 2)] \<and>
   iteration two_pages 0.001 [(''A'', 1 / 2), (''B'', 1 / 2)] =
     Inr [(''A'', 1999 / 4000), (''B'', 2001 / 4000)] \<and>
   map (\<lambda>(new_item, old_item). fst new_item)
     (zip [(''A'', 1999 / 4000 :: real), (''B'', 2001 / 4000)] [(''A'', 1 / 2 :: real), (''B'', 1 / 2)]) =
     map fst two_pages \<and>
   map (\<lambda>(new_item, old_item). fst old_item)
     (zip [(''A'', 1999 / 4000 :: real), (''B'', 2001 / 4000)] [(''A'', 1 / 2 :: real), (''B'', 1 / 2)]) =
     map fst two_pages"
proof -
  have d: "distinct (map fst two_pages)" by (simp add: two_pages_def)
  show ?thesis
    using check_dict_pairs_cover_corpus [OF d loop_state_two_pages iteration_two_pages]
      d loop_state_two_pages iteration_two_pages
    by simp
qed

text \<open>
  Claim C6. In each pass of the loop the new rank of a page \<open>p\<close>, before normalisation,
  is \<open>(1 - damping) / N + damping * links_sum\<close>, where \<open>links_sum\<close> is the sum of the
  specification (\<open>links_sum_spec\<close>) over the ranks held at the head of the pass; and the
  loop starts from the rank \<open>1 / N\<close> for every page.
\<close>

theorem new_pagerank_formula:
  assumes "distinct (map fst corpus)"
    and "loop_state corpus damping_factor pagerank"
  shows "new_pagerank_loop corpus damping_factor pagerank (map fst corpus) [] =
           Inr (map (\<lambda>p. (p, (1 - damping_factor) / real (length corpus) +
                             damping_factor * links_sum_spec corpus (rank_of pagerank) p))
                    (map fst corpus)) \<and>
         iterate_pagerank corpus damping_factor =
           iterate_loop corpus damping_factor
             (map (\<lambda>p. (p, 1 / real (length corpus))) (map fst corpus))"
proof -
  have keys: "map fst pagerank = map fst corpus"
    by (rule loop_state_keys [OF assms(2) assms(1)])
  then have sub: "fst ` set corpus \<subseteq> fst ` set pagerank"
    by (metis list.set_map order_refl)
  have ne: "corpus \<noteq> []" by (rule loop_state_nonempty [OF assms(2)])
  have "new_pagerank_loop corpus damping_factor pagerank (map fst corpus) [] =
          Inr (map (\<lambda>p. (p, new_rank_spec corpus damping_factor (rank_of pagerank) p)) (map fst corpus))"
    using new_pagerank_loop_spec [OF sub, of "map fst corpus" "[]" damping_factor] assms(1)
    by simp
  moreover have "iterate_pagerank corpus damping_factor =
      iterate_loop corpus damping_factor (map (\<lambda>p. (p, 1 / real (length corpus))) (map fst corpus))"
    using ne fromkeys_distinct [OF assms(1), of "1 / real (length corpus)"]
    by (simp add: iterate_pagerank_def Let_def)
  ultimately show ?thesis by (simp add: new_rank_spec_def)
qed

theorem new_pagerank_formula_witness:
  "distinct (map fst two_pages) \<and>
   loop_state two_pages 0.001 [(''A'', 1 / 2), (''B'', 1 / 2)] \<and>
   new_pagerank_loop two_pages 0.001 [(''A'', 1 / 2), (''B'', 1 / 2)] (map fst two_pages) [] =
     Inr [(''A'', 1999 / 4000), (''B'', 2001 / 4000)]"
proof -
  have d: "distinct (map fst two_pages)" by (simp add: two_pages_def)
  have "new_pagerank_loop two_pages 0.001 [(''A'', 1 / 2), (''B'', 1 / 2)] (map fst two_pages) [] =
     Inr [(''A'', 1999 / 4000), (''B'', 2001 / 4000)]"
    using new_pagerank_formula [OF d loop_state_two_pages]
    by (simp add: two_pages_def links_sum_spec_def rank_of_def)
  with d loop_state_two_pages show ?thesis by simp
qed

section \<open>The random walk of sample_pagerank\<close>

lemma fold_setitem_keys_subset:
  "set ks \<subseteq> fst ` set d \<Longrightarrow> map fst (fold (\<lambda>k d. setitem d k (f k)) ks d) = map fst d"
proof (induction ks arbitrary: d)
  case Nil
  then show ?case by simp
next
  case (Cons k ks)
  have k: "k \<in> fst ` set d" using Cons.prems by auto
  have keys: "map fst (setitem d k (f k)) = map fst d"
    by (rule keys_setitem_present [OF k])
  then have "fst ` set (setitem d k (f k)) = fst ` set d"
    by (metis list.set_map)
  with Cons.prems have "set ks \<subseteq> fst ` set (setitem d k (f k))" by auto
  from Cons.IH [OF this] keys show ?case by simp
qed

lemma fold_setitem_values:
  "\<forall>x\<in>set acc. P (snd x) \<Longrightarrow> \<forall>k\<in>set ks. P (f k) \<Longrightarrow>
   \<forall>x\<in>set (fold (\<lambda>k d. setitem d k (f k)) ks acc). P (snd x)"
proof (induction ks arbitrary: acc)
  case Nil
  then show ?case by simp
next
  case (Cons k ks)
  have "\<forall>x\<in>set (setitem acc k (f k)). P (snd x)"
    using Cons.prems set_update_subset [of k "f k" acc] by (auto simp: setitem_def)
  moreover have "\<forall>k\<in>set ks. P (f k)" using Cons.prems(2) by simp
  ultimately show ?case using Cons.IH by simp
qed

lemma getitem_member:
  "getitem d k = Inr v \<Longrightarrow> (k, v) \<in> set d"
  by (auto simp: getitem_def split: option.splits dest: map_of_SomeD)

lemma graph_invariant_links:
  "graph_invariant corpus \<Longrightarrow> (p, links) \<in> set corpus \<Longrightarrow> set links \<subseteq> fst ` set corpus"
  by (auto simp: graph_invariant_def list_all_iff)

lemma transition_model_weights:
  assumes "distinct (map fst corpus)" and "graph_invariant corpus"
    and "page \<in> fst ` set corpus" and "0 < damping_factor" and "damping_factor < 1"
  shows "\<exists>model. transition_model corpus page damping_factor = Inr model \<and>
           map fst model = map fst corpus \<and> (\<forall>x\<in>set model. 0 < snd x)"
proof -
  have "map_of corpus page \<noteq> None"
    using assms(3) by (simp add: map_of_eq_None_iff)
  then obtain links where g: "getitem corpus page = Inr links"
    by (auto simp: getitem_def)
  have ne: "corpus \<noteq> []" using assms(3) by auto
  show ?thesis
  proof (cases "links = []")
    case True
    have "transition_model corpus page damping_factor =
            Inr (map (\<lambda>p. (p, 1 / real (length corpus))) (map fst corpus))"
      using g True fold_setitem_fresh [of "map fst corpus" "[]" "\<lambda>_. 1 / real (length corpus)"] assms(1)
      by (simp add: transition_model_def)
    then show ?thesis using ne by (auto simp: comp_def)
  next
    case False
    define lo where "lo = (1 - damping_factor) / (real (length links) + 1)"
    define hi where "hi = lo + damping_factor / real (length links)"
    define model where "model = fold (\<lambda>link d. setitem d link hi) links (fromkeys (map fst corpus) lo)"
    have tm: "transition_model corpus page damping_factor = Inr model"
      using g False by (simp add: transition_model_def Let_def model_def hi_def lo_def)
    have lo: "0 < lo" using assms(5) by (simp add: lo_def add_pos_nonneg)
    have hi: "0 < hi" using lo assms(4) False by (simp add: hi_def add_pos_pos)
    have init: "fromkeys (map fst corpus) lo = map (\<lambda>k. (k, lo)) (map fst corpus)"
      by (rule fromkeys_distinct [OF assms(1)])
    have sub: "set links \<subseteq> fst ` set (fromkeys (map fst corpus) lo)"
      using graph_invariant_links [OF assms(2) getitem_member [OF g]]
      by (simp add: init image_image)
    have keys: "map fst model = map fst corpus"
      using fold_setitem_keys_subset [OF sub, of "\<lambda>_. hi"] by (simp add: model_def init comp_def)
    have "\<forall>x\<in>set (fromkeys (map fst corpus) lo). 0 < snd x"
      using lo by (auto simp: init)
    then have "\<forall>x\<in>set model. 0 < snd x"
      unfolding model_def using hi by (intro fold_setitem_values) auto
    with tm keys show ?thesis by blast
  qed
qed

lemma bisect_pick_member:
  "model \<noteq> [] \<Longrightarrow> \<exists>k. bisect_pick x acc model = Inr k \<and> k \<in> fst ` set model"
proof (induction x acc model rule: bisect_pick.induct)
  case (3 x acc k w v va)
  then show ?case by (cases "x < acc + w") auto
qed auto

lemma sum_list_snd_pos:
  assumes "xs \<noteq> []" and "\<forall>x\<in>set xs. 0 < snd x"
  shows "0 < sum_list (map snd xs :: real list)"
proof -
  obtain x rest where xs: "xs = x # rest" using assms(1) by (cases xs) auto
  have "0 \<le> sum_list (map snd rest)"
    using assms(2) xs by (intro sum_list_nonneg) (auto simp: less_imp_le)
  moreover have "0 < snd x" using assms(2) xs by simp
  ultimately show ?thesis using xs by simp
qed

lemma choices_member:
  assumes "model \<noteq> []" and "\<forall>x\<in>set model. 0 < snd x"
  shows "\<exists>k. choices u model = Inr k \<and> k \<in> fst ` set model"
  using assms sum_list_snd_pos [OF assms] bisect_pick_member [OF assms(1)]
  by (simp add: choices_def Let_def)

lemma sum_list_setitem:
  "map_of d k = Some c \<Longrightarrow>
   sum_list (map snd (setitem d k v)) = sum_list (map snd d) - c + (v :: int)"
proof (induction d)
  case Nil
  then show ?case by simp
next
  case (Cons x d)
  show ?case
  proof (cases "fst x = k")
    case True
    then show ?thesis using Cons.prems by (simp add: setitem_def)
  next
    case False
    then have "map_of d k = Some c" using Cons.prems by (cases x) auto
    from Cons.IH [OF this] False show ?thesis by (simp add: setitem_def)
  qed
qed

lemma sample_loop_total:
  assumes "distinct (map fst corpus)" and "graph_invariant corpus"
    and "0 < damping_factor" and "damping_factor < 1"
  shows "map fst counts = map fst corpus \<Longrightarrow> page \<in> fst ` set corpus \<Longrightarrow>
         \<exists>counts'. sample_loop rnd corpus damping_factor i m counts page = Inr counts' \<and>
            map fst counts' = map fst corpus \<and>
            sum_list (map snd counts') = sum_list (map snd counts) + int m"
proof (induction m arbitrary: i counts page)
  case 0
  then show ?case by simp
next
  case (Suc m)
  obtain model where tm: "transition_model corpus page damping_factor = Inr model"
    and mkeys: "map fst model = map fst corpus" and pos: "\<forall>x\<in>set model. 0 < snd x"
    using transition_model_weights [OF assms(1,2) Suc.prems(2) assms(3,4)] by blast
  have pc: "page \<in> fst ` set counts"
    using Suc.prems by (metis list.set_map)
  then have "map_of counts page \<noteq> None" by (simp add: map_of_eq_None_iff)
  then obtain c where c: "map_of counts page = Some c" by auto
  then have gc: "getitem counts page = Inr c" by (simp add: getitem_def)
  have "model \<noteq> []" using mkeys Suc.prems(2) by auto
  then obtain next_page where ch: "choices (rnd i) model = Inr next_page"
    and np: "next_page \<in> fst ` set model"
    using choices_member [OF _ pos] by blast
  have np': "next_page \<in> fst ` set corpus"
    using np mkeys by (metis list.set_map)
  let ?counts = "setitem counts page (c + 1)"
  have keys: "map fst ?counts = map fst corpus"
    using keys_setitem_present [OF pc] Suc.prems(1) by simp
  have total: "sum_list (map snd ?counts) = sum_list (map snd counts) + 1"
    using sum_list_setitem [OF c, of "c + 1"] by simp
  obtain counts' where run: "sample_loop rnd corpus damping_factor (Suc i) m ?counts next_page = Inr counts'"
    and k': "map fst counts' = map fst corpus"
    and s': "sum_list (map snd counts') = sum_list (map snd ?counts) + int m"
    using Suc.IH [OF keys np'] by blast
  have "sample_loop rnd corpus damping_factor i (Suc m) counts page = Inr counts'"
    using tm gc ch run by simp
  with k' s' total show ?case by simp
qed

lemma choice_member:
  assumes "seq \<noteq> []"
  shows "\<exists>x. choice u seq = Inr x \<and> x \<in> set seq"
proof -
  have "min (nat \<lfloor>u * real (length seq)\<rfloor>) (length seq - 1) < length seq"
    using assms by (simp add: min_less_iff_disj)
  then have "seq ! min (nat \<lfloor>u * real (length seq)\<rfloor>) (length seq - 1) \<in> set seq"
    by (rule nth_mem)
  then show ?thesis using assms by (simp add: choice_def)
qed

lemma pages_wf: "distinct (map fst pages) \<and> graph_invariant pages \<and> pages \<noteq> []"
  by (simp add: pages_def graph_invariant_def)

text \<open>
  In exact arithmetic: for every non-empty graph (a dict that satisfies the Graph
  invariant), every damping factor in \<open>(0, 1)\<close>, every positive sample count and every
  random source, \<^verbatim>\<open>sample_pagerank\<close> returns a mapping; its keys are the pages of the
  graph, in the graph's order, and its values sum to 1.
\<close>

theorem sample_pagerank_normalized:
  assumes "distinct (map fst corpus)" and "graph_invariant corpus" and "corpus \<noteq> []"
    and "0 < damping_factor" and "damping_factor < 1" and "0 < n"
  shows "\<exists>ranks. sample_pagerank rnd corpus damping_factor n = Inr ranks \<and>
           map fst ranks = map fst corpus \<and> sum_list (map snd ranks) = 1"
proof -
  obtain page where ch: "choice (rnd 0) (map fst corpus) = Inr page"
    and pg: "page \<in> fst ` set corpus"
    using choice_member [of "map fst corpus" "rnd 0"] assms(3) by auto
  have init: "map fst (fromkeys (map fst corpus) (0::int)) = map fst corpus"
    by (simp add: fromkeys_distinct [OF assms(1)] comp_def)
  obtain counts where run: "sample_loop rnd corpus damping_factor 1 (nat n)
        (fromkeys (map fst corpus) 0) page = Inr counts"
    and keys: "map fst counts = map fst corpus"
    and total: "sum_list (map snd counts) = sum_list (map snd (fromkeys (map fst corpus) (0::int))) + int (nat n)"
    using sample_loop_total [OF assms(1,2,4,5) init pg] by blast
  have tn: "sum_list (map snd counts) = n"
    using total assms(6) by (simp add: sum_list_fromkeys_zero)
  define ti where "ti = 1 / real_of_int n"
  define ranks where "ranks = map (\<lambda>(key, val). (key, real_of_int val * ti)) counts"
  have dk: "distinct (map fst counts)" using keys assms(1) by simp
  have "map fst (map (\<lambda>(key, val). (key, real_of_int val)) counts) = map fst counts"
    by (simp add: case_prod_unfold comp_def)
  from fold_setitem_in_place [OF dk this, of "\<lambda>key val. real_of_int val * ti"]
  have norm: "fold (\<lambda>(key, val) d. setitem d key (real_of_int val * ti)) counts
                (map (\<lambda>(key, val). (key, real_of_int val)) counts) = ranks"
    by (simp add: ranks_def)
  have res: "sample_pagerank rnd corpus damping_factor n = Inr ranks"
    using ch run tn assms(6) norm by (simp add: sample_pagerank_def Let_def ti_def)
  have rk: "map fst ranks = map fst corpus"
    using keys by (simp add: ranks_def case_prod_unfold comp_def)
  have "sum_list (map snd ranks) = (\<Sum>x\<leftarrow>counts. real_of_int (snd x) * ti)"
    by (simp add: ranks_def case_prod_unfold comp_def)
  also have "\<dots> = real_of_int (sum_list (map snd counts)) * ti"
    by (induction counts) (simp_all add: algebra_simps)
  also have "\<dots> = 1" using tn assms(6) by (simp add: ti_def)
  finally have "sum_list (map snd ranks) = 1" .
  with res rk show ?thesis by blast
qed

theorem sample_pagerank_normalized_witness:
  "distinct (map fst pages) \<and> graph_invariant pages \<and> pages \<noteq> [] \<and>
   0 < DAMPING \<and> DAMPING < 1 \<and> (0::int) < 3 \<and>
   (\<exists>ranks. sample_pagerank (fixed_source (1 / 2)) pages DAMPING 3 = Inr ranks \<and>
      map fst ranks = map fst pages \<and> sum_list (map snd ranks) = 1)"
proof -
  have d: "0 < DAMPING" "DAMPING < 1" by (simp_all add: DAMPING_def)
  have n: "(0::int) < 3" by simp
  have w: "distinct (map fst pages)" "graph_invariant pages" "pages \<noteq> []"
    using pages_wf by simp_all
  show ?thesis
    using sample_pagerank_normalized [OF w d n, of "fixed_source (1 / 2)"] w d by simp
qed

section \<open>Convergence of the iteration\<close>




lemma link_weight_total:
  assumes "distinct ks" and "ks \<noteq> []" and "distinct targets" and "set targets \<subseteq> set ks"
  shows "(\<Sum>p\<leftarrow>ks. link_weight (length ks) targets p) = 1"
proof (cases "targets = []")
  case True
  then have "(\<Sum>p\<leftarrow>ks. link_weight (length ks) targets p) = (\<Sum>p\<leftarrow>ks. 1 / real (length ks))"
    by (simp add: link_weight_def)
  also have "\<dots> = real (length ks) * (1 / real (length ks))"
    by (simp add: sum_list_triv)
  also have "\<dots> = 1" using assms(2) by simp
  finally show ?thesis .
next
  case False
  let ?c = "1 / real (length targets)"
  have "(\<Sum>p\<leftarrow>ks. link_weight (length ks) targets p) =
          (\<Sum>p\<leftarrow>ks. if p \<in> set targets then ?c else 0)"
    using False by (simp add: link_weight_def)
  also have "\<dots> = (\<Sum>p\<in>set ks. if p \<in> set targets then ?c else 0)"
    by (rule sum_list_distinct_conv_sum_set [OF assms(1)])
  also have "\<dots> = (\<Sum>p\<in>set ks \<inter> set targets. ?c)"
    by (rule sum.inter_restrict [symmetric]) simp
  also have "set ks \<inter> set targets = set targets" using assms(4) by auto
  also have "(\<Sum>p\<in>set targets. ?c) = real (card (set targets)) * ?c" by simp
  also have "card (set targets) = length targets" by (rule distinct_card [OF assms(3)])
  also have "real (length targets) * ?c = 1" using False by simp
  finally show ?thesis .
qed

lemma wf_corpus_entry:
  "wf_corpus corpus \<Longrightarrow> graph_invariant corpus \<Longrightarrow> (q, targets) \<in> set corpus \<Longrightarrow>
   distinct targets \<and> set targets \<subseteq> set (map fst corpus)"
  by (auto simp: wf_corpus_def graph_invariant_def list_all_iff)







lemma map_of_tabulate:
  "q \<in> set ks \<Longrightarrow> map_of (map (\<lambda>p. (p, f p)) ks) q = Some (f q)"
  by (simp add: map_of_map_restrict)













lemma pages_wf_corpus: "wf_corpus pages"
  by (simp add: pages_def wf_corpus_def)



section \<open>The returned mapping and the one-sided check in a run\<close>

text \<open>
  Whatever mapping the loop returns, the pass computed from that mapping passes the check
  against it: the result is always the mapping held before the last pass.
\<close>

lemma iterate_loop_result_precedes_pass:
  assumes "iterate_loop corpus damping_factor pagerank = Some res"
  shows "\<forall>ranks. res = Inr ranks \<longrightarrow>
           (\<exists>new_pagerank. iteration corpus damping_factor ranks = Inr new_pagerank \<and>
              check_dict new_pagerank ranks)"
proof (rule iterate_loop.raw_induct [where P = "\<lambda>corpus damping_factor pagerank res.
    \<forall>ranks. res = Inr ranks \<longrightarrow>
      (\<exists>new_pagerank. iteration corpus damping_factor ranks = Inr new_pagerank \<and>
         check_dict new_pagerank ranks)", OF _ assms])
  fix loop :: "corpus \<Rightarrow> real \<Rightarrow> real dict \<Rightarrow> (error + real dict) option"
  fix corpus damping_factor pagerank res
  assume IH: "\<And>corpus damping_factor pagerank res.
      loop corpus damping_factor pagerank = Some res \<Longrightarrow>
      \<forall>ranks. res = Inr ranks \<longrightarrow>
        (\<exists>new_pagerank. iteration corpus damping_factor ranks = Inr new_pagerank \<and>
           check_dict new_pagerank ranks)"
  assume body: "(case iteration corpus damping_factor pagerank of
        Inl e \<Rightarrow> Some (Inl e)
      | Inr new_pagerank \<Rightarrow>
          if check_dict new_pagerank pagerank then Some (Inr pagerank)
          else loop corpus damping_factor new_pagerank) = Some res"
  show "\<forall>ranks. res = Inr ranks \<longrightarrow>
      (\<exists>new_pagerank. iteration corpus damping_factor ranks = Inr new_pagerank \<and>
         check_dict new_pagerank ranks)"
  proof (cases "iteration corpus damping_factor pagerank")
    case (Inl e)
    then show ?thesis using body by auto
  next
    case (Inr new_pagerank)
    show ?thesis
    proof (cases "check_dict new_pagerank pagerank")
      case True
      then show ?thesis using body Inr by auto
    next
      case False
      then have "loop corpus damping_factor new_pagerank = Some res"
        using body Inr by simp
      then show ?thesis by (rule IH)
    qed
  qed
qed

text \<open>
  A run in which the one-sided check stops the iteration although a rank has changed by
  more than the tolerance: with damping 0.005 on three pages, the first pass lowers the
  rank of \<open>A\<close> by \<open>1 / 600 > 0.001\<close> and raises the two others by \<open>1 / 1200\<close> each,
  and the initial mapping is returned.
\<close>

lemma iterate_stops_early:
  "iteration three_pages 0.005 [(''A'', 1 / 3), (''B'', 1 / 3), (''C'', 1 / 3)] =
     Inr [(''A'', 199 / 600), (''B'', 401 / 1200), (''C'', 401 / 1200)] \<and>
   iterate_pagerank three_pages 0.005 =
     Some (Inr [(''A'', 1 / 3), (''B'', 1 / 3), (''C'', 1 / 3)])"
proof -
  have it: "iteration three_pages 0.005 [(''A'', 1 / 3), (''B'', 1 / 3), (''C'', 1 / 3)] =
     Inr [(''A'', 199 / 600), (''B'', 401 / 1200), (''C'', 401 / 1200)]"
    by (simp add: iteration_def three_pages_def normalize_def getitem_def setitem_def Let_def)
  have "iterate_loop three_pages 0.005 [(''A'', 1 / 3), (''B'', 1 / 3), (''C'', 1 / 3)] =
     Some (Inr [(''A'', 1 / 3), (''B'', 1 / 3), (''C'', 1 / 3)])"
    using it by (subst iterate_loop.simps) simp
  moreover have "fromkeys (map fst three_pages) (1 / real (length three_pages)) =
      [(''A'', 1 / 3), (''B'', 1 / 3), (''C'', 1 / 3)]"
    by (simp add: three_pages_def fromkeys_def setitem_def)
  ultimately show ?thesis using it
    by (simp add: iterate_pagerank_def Let_def) (simp add: three_pages_def)
qed

section \<open>The total mass of the transition model\<close>

text \<open>
  For a page with \<open>k > 0\<close> links in a graph of \<open>N\<close> pages the values of the transition
  model sum to \<open>N * (1 - damping) / (k + 1) + damping\<close>.
\<close>

lemma fold_setitem_map_of_const:
  "map_of (fold (\<lambda>k d. setitem d k c) ks acc) k' =
     (if k' \<in> set ks then Some c else map_of acc k')"
  by (induction ks arbitrary: acc) (auto simp: map_of_setitem)

lemma transition_model_linked:
  assumes "distinct (map fst corpus)" and "graph_invariant corpus"
    and "getitem corpus page = Inr links" and "links \<noteq> []"
  shows "transition_model corpus page damping_factor =
           Inr (map (\<lambda>p. (p, if p \<in> set links
                              then (1 - damping_factor) / (real (length links) + 1) +
                                   damping_factor / real (length links)
                              else (1 - damping_factor) / (real (length links) + 1)))
                    (map fst corpus))"
proof -
  define lo where "lo = (1 - damping_factor) / (real (length links) + 1)"
  define hi where "hi = lo + damping_factor / real (length links)"
  define model where "model = fold (\<lambda>link d. setitem d link hi) links (fromkeys (map fst corpus) lo)"
  define ks where "ks = map fst corpus"
  have dk: "distinct ks" using assms(1) by (simp add: ks_def)
  have tm: "transition_model corpus page damping_factor = Inr model"
    using assms(3,4) by (simp add: transition_model_def Let_def model_def hi_def lo_def)
  have init: "fromkeys ks lo = map (\<lambda>k. (k, lo)) ks"
    by (rule fromkeys_distinct [OF dk])
  have "fst ` set (fromkeys ks lo) = set ks"
    by (simp add: init image_image)
  then have sub: "set links \<subseteq> fst ` set (fromkeys ks lo)"
    using graph_invariant_links [OF assms(2) getitem_member [OF assms(3)]]
    by (simp add: ks_def)
  have keys: "map fst model = ks"
    using fold_setitem_keys_subset [OF sub, of "\<lambda>_. hi"]
    by (simp add: model_def ks_def [symmetric]) (simp add: init comp_def)
  have "model = map (\<lambda>p. (p, if p \<in> set links then hi else lo)) ks"
  proof (rule dict_eqI)
    show "map fst model = map fst (map (\<lambda>p. (p, if p \<in> set links then hi else lo)) ks)"
      using keys by (simp add: comp_def)
    show "distinct (map fst model)" using keys dk by simp
    fix k assume "k \<in> set (map fst model)"
    then have k: "k \<in> set ks" using keys by simp
    have "map_of model k = (if k \<in> set links then Some hi else map_of (fromkeys ks lo) k)"
      unfolding model_def ks_def [symmetric] by (rule fold_setitem_map_of_const)
    also have "map_of (fromkeys ks lo) k = Some lo"
      using map_of_tabulate [OF k, of "\<lambda>_. lo"] by (simp add: init)
    finally show "map_of model k = map_of (map (\<lambda>p. (p, if p \<in> set links then hi else lo)) ks) k"
      using map_of_tabulate [OF k, of "\<lambda>p. if p \<in> set links then hi else lo"] by simp
  qed
  with tm show ?thesis by (simp add: hi_def lo_def ks_def)
qed

lemma transition_model_mass:
  assumes "wf_corpus corpus" and "graph_invariant corpus"
    and "getitem corpus page = Inr links" and "links \<noteq> []"
  shows "\<exists>model. transition_model corpus page damping_factor = Inr model \<and>
           sum_list (map snd model) =
             real (length corpus) * ((1 - damping_factor) / (real (length links) + 1)) +
             damping_factor"
proof -
  define lo where "lo = (1 - damping_factor) / (real (length links) + 1)"
  define ks where "ks = map fst corpus"
  have dk: "distinct ks" using assms(1) by (simp add: wf_corpus_def ks_def)
  have mem: "(page, links) \<in> set corpus" by (rule getitem_member [OF assms(3)])
  then have ne: "ks \<noteq> []" by (auto simp: ks_def)
  have dl: "distinct links" and sub: "set links \<subseteq> set ks"
    using wf_corpus_entry [OF assms(1,2) mem] by (simp_all add: ks_def)
  let ?model = "map (\<lambda>p. (p, if p \<in> set links then lo + damping_factor / real (length links) else lo)) ks"
  have tm: "transition_model corpus page damping_factor = Inr ?model"
    using transition_model_linked [OF _ assms(2,3,4), of damping_factor] dk
    by (simp add: lo_def ks_def)
  have "sum_list (map snd ?model) =
          (\<Sum>p\<leftarrow>ks. lo + damping_factor * link_weight (length ks) links p)"
  proof -
    have "(if p \<in> set links then lo + damping_factor / real (length links) else lo) =
            lo + damping_factor * link_weight (length ks) links p" for p
      using assms(4) by (simp add: link_weight_def)
    then show ?thesis by (simp add: comp_def)
  qed
  also have "\<dots> = (\<Sum>p\<leftarrow>ks. lo) + damping_factor * (\<Sum>p\<leftarrow>ks. link_weight (length ks) links p)"
    by (simp only: sum_list_addf sum_list_const_mult)
  also have "(\<Sum>p\<leftarrow>ks. link_weight (length ks) links p) = 1"
    by (rule link_weight_total [OF dk ne dl sub])
  also have "(\<Sum>p\<leftarrow>ks. lo) = real (length corpus) * lo"
  proof -
    have "length ks = length corpus" by (simp add: ks_def)
    then show ?thesis by (simp add: sum_list_triv)
  qed
  finally have "sum_list (map snd ?model) = real (length corpus) * lo + damping_factor" by simp
  with tm show ?thesis unfolding lo_def by blast
qed

section \<open>Properties of the rounding\<close>

text \<open>The facts that evaluate \<open>f64\<close> on a numeral.\<close>

lemmas f64_eval = f64_def expo_def round_half_even_def Let_def bit_length.simps

lemma f64_085: "f64 0.85 = 7656119366529843 / 9007199254740992"
  by (simp add: f64_eval)

lemma bit_length_pos: "0 < n \<Longrightarrow> 0 < bit_length n"
  by (subst bit_length.simps) simp

lemma bit_length_bounds:
  "0 < n \<Longrightarrow> 2 ^ (bit_length n - 1) \<le> n \<and> n < 2 ^ bit_length n"
proof (induction n rule: bit_length.induct)
  case (1 n)
  have unfold: "bit_length n = Suc (bit_length (n div 2))"
    using "1.prems" by (subst bit_length.simps) simp
  show ?case
  proof (cases "n div 2 = 0")
    case True
    then have "n = 1" using "1.prems" by presburger
    then show ?thesis using unfold True by (simp add: bit_length.simps [of 0])
  next
    case False
    then have pos: "0 < n div 2" using "1.prems" by presburger
    have "\<not> n \<le> 0" using "1.prems" by simp
    from "1.IH" [OF this pos]
    have lo: "2 ^ (bit_length (n div 2) - 1) \<le> n div 2"
      and hi: "n div 2 < 2 ^ bit_length (n div 2)" by simp_all
    obtain b where b: "bit_length (n div 2) = Suc b"
      using bit_length_pos [OF pos] by (cases "bit_length (n div 2)") auto
    have "(2::int) ^ Suc b \<le> 2 * (n div 2)" using lo b by simp
    also have "\<dots> \<le> n" by presburger
    finally have l: "(2::int) ^ (bit_length n - 1) \<le> n" using unfold b by simp
    have "n div 2 + 1 \<le> 2 ^ bit_length (n div 2)" using hi by simp
    then have "2 * (n div 2) + 2 \<le> 2 ^ bit_length n" using unfold by simp
    moreover have "n < 2 * (n div 2) + 2" by presburger
    ultimately have "n < 2 ^ bit_length n" by linarith
    with l show ?thesis by simp
  qed
qed

lemma expo_bounds:
  assumes "0 < x"
  shows "2 powi expo x \<le> x \<and> x < 2 powi (expo x + 1)"
proof (cases "1 \<le> x")
  case True
  define n where "n = \<lfloor>x\<rfloor>"
  have n: "0 < n" using True by (simp add: n_def)
  obtain b where b: "bit_length n = Suc b"
    using bit_length_pos [OF n] by (cases "bit_length n") auto
  have e: "expo x = int b" using True assms by (simp add: expo_def n_def [symmetric] b)
  have "(2::int) ^ b \<le> n" and "n < 2 ^ Suc b"
    using bit_length_bounds [OF n] b by simp_all
  then have n1: "n + 1 \<le> 2 ^ Suc b" by simp
  have "x < real_of_int (n + 1)" by (simp add: n_def)
  also have "\<dots> \<le> real_of_int (2 ^ Suc b)" using n1 by (simp only: of_int_le_iff)
  also have "\<dots> = 2 ^ Suc b" by simp
  finally have hi: "x < 2 ^ Suc b" .
  have "(2::real) ^ b = real_of_int (2 ^ b)" by simp
  also have "\<dots> \<le> real_of_int n" using \<open>2 ^ b \<le> n\<close> by (simp only: of_int_le_iff)
  also have "\<dots> \<le> x" by (simp add: n_def)
  finally have lo: "2 ^ b \<le> x" .
  have "2 powi (int b + 1) = (2::real) ^ Suc b"
    by (metis of_nat_Suc power_int_of_nat add.commute)
  with lo hi show ?thesis by (simp add: e)
next
  case False
  define y where "y = 1 / x"
  have y1: "1 < y" using False assms by (simp add: y_def)
  define m where "m = \<lceil>y\<rceil> - 1"
  have "2 \<le> \<lceil>y\<rceil>" using y1 by (simp add: le_ceiling_iff) 
  then have m: "0 < m" by (simp add: m_def)
  obtain b where b: "bit_length m = Suc b"
    using bit_length_pos [OF m] by (cases "bit_length m") auto
  have e: "expo x = - int (Suc b)"
    using False assms by (simp add: expo_def y_def [symmetric] m_def [symmetric] b)
  have mlo: "(2::int) ^ b \<le> m" and mhi: "m < 2 ^ Suc b"
    using bit_length_bounds [OF m] b by simp_all
  have m1: "m + 1 \<le> 2 ^ Suc b" using mhi by simp
  have "y \<le> real_of_int (m + 1)" by (simp add: m_def)
  also have "\<dots> \<le> real_of_int (2 ^ Suc b)" using m1 by (simp only: of_int_le_iff)
  also have "\<dots> = 2 ^ Suc b" by simp
  finally have yhi: "y \<le> 2 ^ Suc b" .
  have "(2::real) ^ b = real_of_int (2 ^ b)" by simp
  also have "\<dots> \<le> real_of_int m" using mlo by (simp only: of_int_le_iff)
  also have "\<dots> < y" unfolding m_def by linarith
  finally have ylo: "2 ^ b < y" .
  have xy: "x = 1 / y" using assms by (simp add: y_def)
  have lo: "1 / 2 ^ Suc b \<le> x"
    unfolding xy using yhi y1 by (intro divide_left_mono) auto
  have hi: "x < 1 / 2 ^ b"
    unfolding xy using ylo y1 by (intro divide_strict_left_mono) (auto intro: mult_pos_pos)
  have p1: "2 powi (- int (Suc b)) = 1 / (2::real) ^ Suc b"
    by (simp only: power_int_minus_divide power_int_of_nat)
  have p2: "2 powi (- int (Suc b) + 1) = 1 / (2::real) ^ b"
  proof -
    have "- int (Suc b) + 1 = - int b" by simp
    then show ?thesis by (simp only: power_int_minus_divide power_int_of_nat)
  qed
  show ?thesis unfolding e p1 p2 using lo hi by simp
qed

lemma expo_mono:
  assumes "0 < x" and "x \<le> y"
  shows "expo x \<le> expo y"
proof (rule ccontr)
  assume "\<not> expo x \<le> expo y"
  then have "expo y + 1 \<le> expo x" by simp
  then have "(2::real) powi (expo y + 1) \<le> 2 powi expo x"
    by (intro power_int_increasing) auto
  moreover have "2 powi expo x \<le> x" using expo_bounds [OF assms(1)] by simp
  moreover have "y < 2 powi (expo y + 1)" using expo_bounds [of y] assms by simp
  ultimately show False using assms(2) by linarith
qed

lemma expo_power: "expo (2 powi k) = k"
proof -
  have pos: "0 < (2::real) powi k" by (simp add: power_int_def)
  from expo_bounds [OF pos]
  have lo: "(2::real) powi expo (2 powi k) \<le> 2 powi k"
    and hi: "(2::real) powi k < 2 powi (expo (2 powi k) + 1)" by simp_all
  have "expo (2 powi k) \<le> k"
  proof (rule ccontr)
    assume "\<not> expo (2 powi k) \<le> k"
    then have "(2::real) powi k < 2 powi expo (2 powi k)"
      by (intro power_int_strict_increasing) auto
    with lo show False by simp
  qed
  moreover have "k < expo (2 powi k) + 1"
  proof (rule ccontr)
    assume "\<not> k < expo (2 powi k) + 1"
    then have "(2::real) powi (expo (2 powi k) + 1) \<le> 2 powi k"
      by (intro power_int_increasing) auto
    with hi show False by simp
  qed
  ultimately show ?thesis by simp
qed

lemma round_half_even_floor:
  "\<lfloor>q\<rfloor> \<le> round_half_even q \<and> round_half_even q \<le> \<lfloor>q\<rfloor> + 1"
  by (simp add: round_half_even_def Let_def)

lemma round_half_even_error:
  "\<bar>real_of_int (round_half_even q) - q\<bar> \<le> 1 / 2"
proof -
  have "real_of_int \<lfloor>q\<rfloor> \<le> q" and "q < real_of_int \<lfloor>q\<rfloor> + 1" by linarith+
  then show ?thesis
    by (auto simp: round_half_even_def Let_def abs_le_iff)
qed

lemma round_half_even_of_int: "round_half_even (of_int n) = n"
  by (simp add: round_half_even_def)

lemma round_half_even_mono:
  assumes "q \<le> q'"
  shows "round_half_even q \<le> round_half_even q'"
proof (cases "\<lfloor>q\<rfloor> = \<lfloor>q'\<rfloor>")
  case True
  then show ?thesis using assms
    by (auto simp: round_half_even_def Let_def)
next
  case False
  then have "\<lfloor>q\<rfloor> + 1 \<le> \<lfloor>q'\<rfloor>"
    using floor_mono [OF assms] by simp
  then show ?thesis
    using round_half_even_floor [of q] round_half_even_floor [of q'] by linarith
qed



lemma f64_grid:
  "x \<noteq> 0 \<Longrightarrow> f64 x = of_int (round_half_even (x / 2 powi grid x)) * 2 powi grid x"
  by (simp add: f64_def grid_def Let_def)

lemma f64_zero: "f64 0 = 0"
  by (simp add: f64_def)

lemma two_powi_pos: "0 < (2::real) powi k"
  by (simp add: power_int_def)

lemma two_powi_int:
  assumes "0 \<le> k"
  shows "(2::real) powi k = of_int (2 ^ nat k)"
  using assms by (simp add: power_int_def)

lemma f64_nonneg:
  assumes "0 \<le> x"
  shows "0 \<le> f64 x"
proof (cases "x = 0")
  case True
  then show ?thesis by (simp add: f64_zero)
next
  case False
  have "0 \<le> x / 2 powi grid x" using assms two_powi_pos [of "grid x"] by simp
  then have "0 \<le> \<lfloor>x / 2 powi grid x\<rfloor>" by simp
  then have "0 \<le> round_half_even (x / 2 powi grid x)"
    using round_half_even_floor [of "x / 2 powi grid x"] by linarith
  then show ?thesis
    using two_powi_pos [of "grid x"] by (simp add: f64_grid [OF False])
qed

lemma f64_power:
  assumes "- 1074 \<le> k"
  shows "f64 (2 powi k) = 2 powi k"
proof -
  have nz: "(2::real) powi k \<noteq> 0" using two_powi_pos [of k] by simp
  define g where "g = grid (2 powi k)"
  have g: "g \<le> k" using assms by (simp add: g_def grid_def expo_power)
  have "(2::real) powi k / 2 powi g = 2 powi (k - g)"
    by (simp add: power_int_diff)
  also have "\<dots> = of_int (2 ^ nat (k - g))" using g by (intro two_powi_int) simp
  finally have q: "(2::real) powi k / 2 powi g = of_int (2 ^ nat (k - g))" .
  have "f64 (2 powi k) = of_int (round_half_even (2 powi k / 2 powi g)) * 2 powi g"
    unfolding g_def by (rule f64_grid [OF nz])
  also have "\<dots> = (2 powi k / 2 powi g) * 2 powi g"
    by (simp only: q round_half_even_of_int)
  also have "\<dots> = 2 powi k" using two_powi_pos [of g] by simp
  finally show ?thesis .
qed

lemma grid_mono: "0 < x \<Longrightarrow> x \<le> y \<Longrightarrow> grid x \<le> grid y"
  using expo_mono [of x y] by (simp add: grid_def)

lemma f64_mono_pos:
  assumes "0 < x" and "x \<le> y"
  shows "f64 x \<le> f64 y"
proof -
  have y: "0 < y" using assms by simp
  have fx: "f64 x = of_int (round_half_even (x / 2 powi grid x)) * 2 powi grid x"
    using assms(1) by (intro f64_grid) simp
  have fy: "f64 y = of_int (round_half_even (y / 2 powi grid y)) * 2 powi grid y"
    using y by (intro f64_grid) simp
  show ?thesis
  proof (cases "grid x = grid y")
    case True
    have "x / 2 powi grid y \<le> y / 2 powi grid y"
      using assms(2) two_powi_pos [of "grid y"] by (simp add: divide_right_mono)
    then have "round_half_even (x / 2 powi grid y) \<le> round_half_even (y / 2 powi grid y)"
      by (rule round_half_even_mono)
    then have "real_of_int (round_half_even (x / 2 powi grid y)) \<le>
               real_of_int (round_half_even (y / 2 powi grid y))" by simp
    then show ?thesis
      unfolding fx fy True using two_powi_pos [of "grid y"] by (simp add: mult_right_mono)
  next
    case False
    then have lt: "grid x < grid y" using grid_mono [OF assms] by simp
    then have gy: "grid y = expo y - 52" and ex: "expo x < expo y"
      by (auto simp: grid_def max_def split: if_splits)
    define B :: real where "B = 2 powi expo y"
    have "x < 2 powi (expo x + 1)" using expo_bounds [OF assms(1)] by simp
    also have "\<dots> \<le> B" unfolding B_def using ex by (intro power_int_increasing) auto
    finally have xB: "x \<le> B" by simp
    have By: "B \<le> y" unfolding B_def using expo_bounds [OF y] by simp
    have gxe: "grid x \<le> expo y" using lt gy by simp
    have "B / 2 powi grid x = 2 powi (expo y - grid x)"
      by (simp add: B_def power_int_diff)
    also have "\<dots> = of_int (2 ^ nat (expo y - grid x))" using gxe by (intro two_powi_int) simp
    finally have qx: "B / 2 powi grid x = of_int (2 ^ nat (expo y - grid x))" .
    have "x / 2 powi grid x \<le> B / 2 powi grid x"
      using xB two_powi_pos [of "grid x"] by (simp add: divide_right_mono)
    then have "round_half_even (x / 2 powi grid x) \<le> round_half_even (B / 2 powi grid x)"
      by (rule round_half_even_mono)
    then have "real_of_int (round_half_even (x / 2 powi grid x)) \<le> B / 2 powi grid x"
      by (simp only: qx round_half_even_of_int of_int_le_iff)
    then have "f64 x \<le> (B / 2 powi grid x) * 2 powi grid x"
      unfolding fx using two_powi_pos [of "grid x"] by (intro mult_right_mono) simp_all
    then have 1: "f64 x \<le> B" using two_powi_pos [of "grid x"] by simp
    have "B / 2 powi grid y = 2 powi (expo y - grid y)"
      by (simp add: B_def power_int_diff)
    also have "\<dots> = of_int (2 ^ nat (expo y - grid y))" using gy by (intro two_powi_int) simp
    finally have qy: "B / 2 powi grid y = of_int (2 ^ nat (expo y - grid y))" .
    have "B / 2 powi grid y \<le> y / 2 powi grid y"
      using By two_powi_pos [of "grid y"] by (simp add: divide_right_mono)
    then have "round_half_even (B / 2 powi grid y) \<le> round_half_even (y / 2 powi grid y)"
      by (rule round_half_even_mono)
    then have "B / 2 powi grid y \<le> real_of_int (round_half_even (y / 2 powi grid y))"
      by (simp only: qy round_half_even_of_int of_int_le_iff)
    then have "(B / 2 powi grid y) * 2 powi grid y \<le> f64 y"
      unfolding fy using two_powi_pos [of "grid y"] by (intro mult_right_mono) simp_all
    then have 2: "B \<le> f64 y" using two_powi_pos [of "grid y"] by simp
    from 1 2 show ?thesis by simp
  qed
qed

lemma f64_mono:
  assumes "0 \<le> x" and "x \<le> y"
  shows "f64 x \<le> f64 y"
proof (cases "x = 0")
  case True
  then show ?thesis using f64_nonneg [of y] assms by (simp add: f64_zero)
next
  case False
  then show ?thesis using assms by (intro f64_mono_pos) simp_all
qed

lemma f64_ge_power:
  assumes "- 1074 \<le> k" and "2 powi k \<le> x"
  shows "2 powi k \<le> f64 x"
  using f64_mono [of "2 powi k" x] two_powi_pos [of k] assms by (simp add: f64_power)

lemma f64_le_power:
  assumes "- 1074 \<le> k" and "0 \<le> x" and "x \<le> 2 powi k"
  shows "f64 x \<le> 2 powi k"
  using f64_mono [of x "2 powi k"] assms by (simp add: f64_power)

lemma f64_rel_error:
  assumes "2 powi (- 1022) \<le> x"
  shows "\<bar>f64 x - x\<bar> \<le> 2 powi (- 53) * x"
proof -
  have x: "0 < x" using assms two_powi_pos [of "- 1022"] by linarith
  have "expo (2 powi (- 1022)) \<le> expo x"
    using assms by (intro expo_mono two_powi_pos)
  then have e: "- 1022 \<le> expo x" by (simp only: expo_power)
  define g where "g = grid x"
  have g: "g = expo x - 52" using e by (simp add: g_def grid_def)
  define q where "q = x / 2 powi g"
  have xq: "x = q * 2 powi g" using two_powi_pos [of g] by (simp add: q_def)
  have "f64 x = of_int (round_half_even q) * 2 powi g"
    unfolding q_def g_def using x by (intro f64_grid) simp
  then have "f64 x - x = (of_int (round_half_even q) - q) * 2 powi g"
    using xq by (simp add: algebra_simps)
  then have "\<bar>f64 x - x\<bar> = \<bar>of_int (round_half_even q) - q\<bar> * 2 powi g"
    using two_powi_pos [of g] by (simp add: abs_mult)
  also have "\<dots> \<le> (1 / 2) * 2 powi g"
    using round_half_even_error [of q] two_powi_pos [of g] by (intro mult_right_mono) simp_all
  also have "(1 / 2) * (2::real) powi g = 2 powi (- 53) * 2 powi expo x"
  proof -
    have "(2::real) powi (g - 1) * 2 = 2 powi g"
      by (intro power_int_minus_mult) simp
    then have "(1 / 2) * (2::real) powi g = 2 powi (g - 1)" by simp
    also have "g - 1 = - 53 + expo x" using g by simp
    also have "(2::real) powi (- 53 + expo x) = 2 powi (- 53) * 2 powi expo x"
      by (intro power_int_add) simp
    finally show ?thesis .
  qed
  also have "\<dots> \<le> 2 powi (- 53) * x"
    using expo_bounds [OF x] two_powi_pos [of "- 53"] by (intro mult_left_mono) simp_all
  finally show ?thesis .
qed

lemma f64_of_int:
  assumes "0 \<le> n" and "n \<le> 2 ^ 53"
  shows "f64 (of_int n) = of_int n"
proof (cases "n = 0")
  case True
  then show ?thesis by (simp add: f64_zero)
next
  case False
  then have n: "0 < n" using assms(1) by simp
  define x where "x = real_of_int n"
  have x: "0 < x" "1 \<le> x" using n by (simp_all add: x_def)
  have "x \<le> real_of_int (2 ^ 53)" unfolding x_def using assms(2) by (simp only: of_int_le_iff)
  then have x53: "x \<le> 2 powi 53" by simp
  have "expo (2 powi 0) \<le> expo x" using x by (intro expo_mono) simp_all
  then have e0: "0 \<le> expo x" by (simp only: expo_power)
  have "expo x \<le> expo (2 powi 53)" using x x53 by (intro expo_mono) simp_all
  then have e53: "expo x \<le> 53" by (simp only: expo_power)
  show ?thesis
  proof (cases "expo x = 53")
    case True
    then have "2 powi 53 \<le> x" using expo_bounds [OF x(1)] by simp
    with x53 have "x = 2 powi 53" by simp
    then show ?thesis unfolding x_def [symmetric] using f64_power [of 53] by simp
  next
    case False
    define g where "g = grid x"
    have g: "g \<le> 0" using False e53 e0 by (simp add: g_def grid_def)
    have "(2::real) powi g * 2 powi (- g) = 2 powi (g + - g)"
      by (intro power_int_add [symmetric]) simp
    then have inv: "(2::real) powi g * 2 powi (- g) = 1" by simp
    have "x / 2 powi g = x * 2 powi (- g)"
      using inv two_powi_pos [of g] by (simp add: field_simps)
    also have "(2::real) powi (- g) = of_int (2 ^ nat (- g))" using g by (intro two_powi_int) simp
    finally have q: "x / 2 powi g = of_int (n * 2 ^ nat (- g))" by (simp add: x_def)
    have "f64 x = of_int (round_half_even (x / 2 powi g)) * 2 powi g"
      unfolding g_def using x by (intro f64_grid) simp
    also have "\<dots> = (x / 2 powi g) * 2 powi g"
      by (simp only: q round_half_even_of_int)
    also have "\<dots> = x" using two_powi_pos [of g] by simp
    finally show ?thesis by (simp add: x_def)
  qed
qed

section \<open>transition_model on doubles\<close>

lemma transition_model_f64_from_1: "transition_model_f64 pages ''1.html'' (f64 0.85) =
     Inr [(''1.html'', f64 0.05 + 2 powi (- 57)), (''2.html'', f64 0.475),
          (''3.html'', f64 0.475), (''4.html'', f64 0.05 + 2 powi (- 57))]"
  by (simp add: transition_model_f64_def pages_def getitem_def setitem_def fromkeys_def f64_eval)

lemma transition_model_f64_from_2: "transition_model_f64 pages ''2.html'' (f64 0.85) =
     Inr [(''1.html'', f64 0.075 + 2 powi (- 56)), (''2.html'', f64 0.075 + 2 powi (- 56)),
          (''3.html'', f64 0.925), (''4.html'', f64 0.075 + 2 powi (- 56))]"
  by (simp add: transition_model_f64_def pages_def getitem_def setitem_def fromkeys_def f64_eval)

text \<open>
  Claim C5 says that on the graph of \<^verbatim>\<open>playground.py\<close> with damping 0.85 the transition
  model returns exactly \<open>{A: 0.05, B: 0.475, C: 0.475, D: 0.05}\<close> from page A and
  \<open>{A: 0.075, B: 0.075, C: 0.925, D: 0.075}\<close> from page B. On doubles neither mapping is
  returned: the base probabilities differ from the doubles \<open>0.05\<close> and \<open>0.075\<close>.
\<close>

theorem transition_model_f64_not_exact:
  "transition_model_f64 pages ''1.html'' (f64 0.85) \<noteq>
     Inr [(''1.html'', f64 0.05), (''2.html'', f64 0.475),
          (''3.html'', f64 0.475), (''4.html'', f64 0.05)] \<and>
   transition_model_f64 pages ''2.html'' (f64 0.85) \<noteq>
     Inr [(''1.html'', f64 0.075), (''2.html'', f64 0.075),
          (''3.html'', f64 0.925), (''4.html'', f64 0.075)]"
  using transition_model_f64_from_1 transition_model_f64_from_2 by (simp add: f64_eval)

text \<open>
  Claim C5, amended. On doubles the transition model of page A is
  \<open>{A: 0.05 + 2 ^ -57, B: 0.475, C: 0.475, D: 0.05 + 2 ^ -57}\<close> and that of page B is
  \<open>{A: 0.075 + 2 ^ -56, B: 0.075 + 2 ^ -56, C: 0.925, D: 0.075 + 2 ^ -56}\<close>, where each
  decimal is the double of that literal: the values of the linked pages are the claimed
  ones, the base probabilities are one unit in the last place above them (they print as
  \<open>0.05000000000000001\<close> and \<open>0.07500000000000001\<close>).
\<close>

theorem transition_model_f64_playground:
  "transition_model_f64 pages ''1.html'' (f64 0.85) =
     Inr [(''1.html'', f64 0.05 + 2 powi (- 57)), (''2.html'', f64 0.475),
          (''3.html'', f64 0.475), (''4.html'', f64 0.05 + 2 powi (- 57))] \<and>
   transition_model_f64 pages ''2.html'' (f64 0.85) =
     Inr [(''1.html'', f64 0.075 + 2 powi (- 56)), (''2.html'', f64 0.075 + 2 powi (- 56)),
          (''3.html'', f64 0.925), (''4.html'', f64 0.075 + 2 powi (- 56))]"
  using transition_model_f64_from_1 transition_model_f64_from_2 by simp

section \<open>sample_pagerank on doubles\<close>

lemma f64_count:
  assumes "1 \<le> n" and "n \<le> 2 ^ 64"
  shows "1 \<le> f64 (real n) \<and> f64 (real n) \<le> 2 powi 64"
proof -
  have "(2::real) powi 0 \<le> real n" using assms(1) by simp
  then have "2 powi 0 \<le> f64 (real n)" by (intro f64_ge_power) simp_all
  moreover have "real n \<le> real (2 ^ 64)" using assms(2) by (simp only: of_nat_le_iff)
  then have "real n \<le> 2 powi 64" by simp
  then have "f64 (real n) \<le> 2 powi 64" by (intro f64_le_power) simp_all
  ultimately show ?thesis by simp
qed

lemma quotient_lower:
  assumes "2 powi (- 1) \<le> a" and "0 < b" and "b \<le> 2 powi 64"
  shows "2 powi (- 65) \<le> a / (b :: real)"
proof -
  have "(2::real) powi (- 65) = 2 powi (- 1) / 2 powi 64"
    by (simp add: power_int_minus_divide)
  also have "\<dots> \<le> a / 2 powi 64"
    using assms(1) by (intro divide_right_mono) simp_all
  also have "\<dots> \<le> a / b"
    using assms two_powi_pos [of "- 1"] by (intro divide_left_mono) (auto intro: mult_pos_pos)
  finally show ?thesis .
qed

lemma transition_model_f64_weights:
  assumes "wf_corpus corpus" and "graph_invariant corpus"
    and "page \<in> fst ` set corpus" and "length corpus \<le> 2 ^ 63"
    and "0 < damping_factor" and "damping_factor < 1"
  shows "\<exists>model. transition_model_f64 corpus page damping_factor = Inr model \<and>
           map fst model = map fst corpus \<and> (\<forall>x\<in>set model. 0 \<le> snd x) \<and>
           (\<exists>x\<in>set model. 2 powi (- 65) \<le> snd x)"
proof -
  define ks where "ks = map fst corpus"
  have dk: "distinct ks" using assms(1) by (simp add: wf_corpus_def ks_def)
  have "map_of corpus page \<noteq> None"
    using assms(3) by (simp add: map_of_eq_None_iff)
  then obtain links where g: "getitem corpus page = Inr links"
    by (auto simp: getitem_def)
  have mem: "(page, links) \<in> set corpus" by (rule getitem_member [OF g])
  have ne: "corpus \<noteq> []" using assms(3) by auto
  then have n1: "1 \<le> length corpus" by (cases corpus) auto
  have n64: "length corpus \<le> 2 ^ 64" using assms(4) by simp
  show ?thesis
  proof (cases "links = []")
    case True
    define w where "w = f64 (1 / f64 (real (length corpus)))"
    have tm: "transition_model_f64 corpus page damping_factor = Inr (map (\<lambda>p. (p, w)) ks)"
      using g True fold_setitem_fresh [of ks "[]" "\<lambda>_. w"] dk
      by (simp add: transition_model_f64_def w_def ks_def)
    have c: "1 \<le> f64 (real (length corpus))" "f64 (real (length corpus)) \<le> 2 powi 64"
      using f64_count [OF n1 n64] by simp_all
    have "2 powi (- 65) \<le> 1 / f64 (real (length corpus))"
      using c by (intro quotient_lower) (simp_all add: power_int_minus_divide)
    then have w: "2 powi (- 65) \<le> w" unfolding w_def by (intro f64_ge_power) simp_all
    then have w0: "0 \<le> w" using two_powi_pos [of "- 65"] by linarith
    obtain p where p: "p \<in> set ks" using ne by (cases corpus) (auto simp: ks_def)
    have "(p, w) \<in> set (map (\<lambda>p. (p, w)) ks)" using p by simp
    then have ex: "\<exists>x\<in>set (map (\<lambda>p. (p, w)) ks). 2 powi (- 65) \<le> snd x"
      using w by force
    have nn: "\<forall>x\<in>set (map (\<lambda>p. (p, w)) ks). 0 \<le> snd x" using w0 by simp
    have kk: "map fst (map (\<lambda>p. (p, w)) ks) = ks" by (simp add: comp_def)
    show ?thesis using tm ex nn kk unfolding ks_def by blast
  next
    case False
    define k where "k = length links"
    have dl: "distinct links" and sub: "set links \<subseteq> set ks"
      using wf_corpus_entry [OF assms(1,2) mem] by (simp_all add: ks_def)
    have "card (set links) \<le> card (set ks)" using sub by (intro card_mono) simp_all
    then have "k \<le> length corpus"
      using distinct_card [OF dl] distinct_card [OF dk] by (simp add: k_def ks_def)
    then have k64: "k + 1 \<le> 2 ^ 64" "k \<le> 2 ^ 64" using assms(4) by simp_all
    have k1: "1 \<le> k" using False by (cases links) (auto simp: k_def)
    define a where "a = f64 (1 - damping_factor)"
    define b where "b = f64 (real (k + 1))"
    define c where "c = f64 (real k)"
    define lo where "lo = f64 (a / b)"
    define t where "t = f64 (damping_factor / c)"
    define hi where "hi = f64 (lo + t)"
    define model where "model = fold (\<lambda>link d. setitem d link hi) links (fromkeys ks lo)"
    have tm: "transition_model_f64 corpus page damping_factor = Inr model"
      using g False
      by (simp add: transition_model_f64_def Let_def model_def hi_def lo_def t_def a_def b_def
          c_def k_def ks_def)
    have b: "1 \<le> b" "b \<le> 2 powi 64" unfolding b_def using f64_count [of "k + 1"] k64 by simp_all
    have c: "1 \<le> c" "c \<le> 2 powi 64" unfolding c_def using f64_count [OF k1 k64(2)] by simp_all
    have a0: "0 \<le> a" unfolding a_def using assms(6) by (intro f64_nonneg) simp
    have lo0: "0 \<le> lo" unfolding lo_def using a0 b by (intro f64_nonneg) simp
    have t0: "0 \<le> t" unfolding t_def using assms(5) c by (intro f64_nonneg) simp
    have "2 powi (- 65) \<le> lo + t"
    proof (cases "damping_factor \<le> 1 / 2")
      case True
      then have "2 powi (- 1) \<le> 1 - damping_factor" by (simp add: power_int_minus_divide)
      then have "2 powi (- 1) \<le> a" unfolding a_def by (intro f64_ge_power) simp_all
      then have "2 powi (- 65) \<le> a / b" using b by (intro quotient_lower) simp_all
      then have "2 powi (- 65) \<le> lo" unfolding lo_def by (intro f64_ge_power) simp_all
      then show ?thesis using t0 by linarith
    next
      case False
      then have "2 powi (- 1) \<le> damping_factor" by (simp add: power_int_minus_divide)
      then have "2 powi (- 65) \<le> damping_factor / c" using c by (intro quotient_lower) simp_all
      then have "2 powi (- 65) \<le> t" unfolding t_def by (intro f64_ge_power) simp_all
      then show ?thesis using lo0 by linarith
    qed
    then have hi: "2 powi (- 65) \<le> hi" unfolding hi_def by (intro f64_ge_power) simp_all
    then have hi0: "0 \<le> hi" using two_powi_pos [of "- 65"] by linarith
    have init: "fromkeys ks lo = map (\<lambda>k. (k, lo)) ks" by (rule fromkeys_distinct [OF dk])
    have "fst ` set (fromkeys ks lo) = set ks" by (simp add: init image_image)
    then have sub': "set links \<subseteq> fst ` set (fromkeys ks lo)" using sub by simp
    have keys: "map fst model = ks"
      using fold_setitem_keys_subset [OF sub', of "\<lambda>_. hi"]
      by (simp add: model_def) (simp add: init comp_def)
    have "\<forall>x\<in>set (fromkeys ks lo). 0 \<le> snd x" using lo0 by (auto simp: init)
    then have nonneg: "\<forall>x\<in>set model. 0 \<le> snd x"
      unfolding model_def using hi0 by (intro fold_setitem_values) auto
    obtain l where l: "l \<in> set links" using False by (cases links) auto
    have "map_of model l = Some hi"
      unfolding model_def using l by (simp add: fold_setitem_map_of_const)
    then have "(l, hi) \<in> set model" by (rule map_of_SomeD)
    then have "\<exists>x\<in>set model. 2 powi (- 65) \<le> snd x" using hi by force
    with tm keys nonneg show ?thesis unfolding ks_def by blast
  qed
qed

lemma fold_f64_lower:
  assumes "- 1074 \<le> k" and "\<forall>w\<in>set ws. 0 \<le> w" and "0 \<le> acc"
  shows "0 \<le> fold (\<lambda>x acc. f64 (acc + x)) ws acc \<and>
         (2 powi k \<le> acc \<or> (\<exists>w\<in>set ws. 2 powi k \<le> w) \<longrightarrow>
            2 powi k \<le> fold (\<lambda>x acc. f64 (acc + x)) ws acc)"
  using assms(2,3)
proof (induction ws arbitrary: acc)
  case Nil
  then show ?case by simp
next
  case (Cons w ws)
  have w: "0 \<le> w" and rest: "\<forall>w\<in>set ws. 0 \<le> w" using Cons.prems(1) by simp_all
  have acc': "0 \<le> f64 (acc + w)" using w Cons.prems(2) by (intro f64_nonneg) simp
  have step: "2 powi k \<le> acc \<or> 2 powi k \<le> w \<Longrightarrow> 2 powi k \<le> f64 (acc + w)"
    using w Cons.prems(2) assms(1) by (intro f64_ge_power) auto
  from Cons.IH [OF rest acc'] step show ?case by auto
qed

lemma bisect_pick_f64_member:
  "model \<noteq> [] \<Longrightarrow> \<exists>k. bisect_pick_f64 x acc model = Inr k \<and> k \<in> fst ` set model"
proof (induction x acc model rule: bisect_pick_f64.induct)
  case (3 x acc k w v va)
  then show ?case by (cases "x < f64 (acc + w)") auto
qed auto

lemma choices_f64_member:
  assumes "model \<noteq> []" and "\<forall>x\<in>set model. 0 \<le> snd x"
    and "\<exists>x\<in>set model. 2 powi (- 65) \<le> snd x"
  shows "\<exists>k. choices_f64 u model = Inr k \<and> k \<in> fst ` set model"
proof -
  have "2 powi (- 65) \<le> sum_f64 (map snd model)"
    unfolding sum_f64_def
    using fold_f64_lower [of "- 65" "map snd model" 0] assms(2,3) by auto
  then have "2 powi (- 65) \<le> f64 (sum_f64 (map snd model) + 0)"
    by (intro f64_ge_power) simp_all
  then have "0 < f64 (sum_f64 (map snd model) + 0)"
    using two_powi_pos [of "- 65"] by linarith
  then show ?thesis
    using assms(1) bisect_pick_f64_member [OF assms(1)]
    by (simp add: choices_f64_def Let_def)
qed

lemma sample_loop_f64_total:
  assumes "wf_corpus corpus" and "graph_invariant corpus" and "length corpus \<le> 2 ^ 63"
    and "0 < damping_factor" and "damping_factor < 1"
  shows "map fst counts = map fst corpus \<Longrightarrow> \<forall>x\<in>set counts. 0 \<le> snd x \<Longrightarrow>
         page \<in> fst ` set corpus \<Longrightarrow>
         \<exists>counts'. sample_loop_f64 rnd corpus damping_factor i m counts page = Inr counts' \<and>
            map fst counts' = map fst corpus \<and> (\<forall>x\<in>set counts'. 0 \<le> snd x) \<and>
            sum_list (map snd counts') = sum_list (map snd counts) + int m"
proof (induction m arbitrary: i counts page)
  case 0
  then show ?case by simp
next
  case (Suc m)
  obtain model where tm: "transition_model_f64 corpus page damping_factor = Inr model"
    and mkeys: "map fst model = map fst corpus" and nonneg: "\<forall>x\<in>set model. 0 \<le> snd x"
    and big: "\<exists>x\<in>set model. 2 powi (- 65) \<le> snd x"
    using transition_model_f64_weights [OF assms(1,2) Suc.prems(3) assms(3,4,5)] by blast
  have pc: "page \<in> fst ` set counts"
    using Suc.prems(1,3) by (metis list.set_map)
  then have "map_of counts page \<noteq> None" by (simp add: map_of_eq_None_iff)
  then obtain c where c: "map_of counts page = Some c" by auto
  then have gc: "getitem counts page = Inr c" by (simp add: getitem_def)
  have c0: "0 \<le> c" using map_of_SomeD [OF c] Suc.prems(2) by force
  have "model \<noteq> []" using mkeys Suc.prems(3) by auto
  then obtain next_page where ch: "choices_f64 (rnd i) model = Inr next_page"
    and np: "next_page \<in> fst ` set model"
    using choices_f64_member [OF _ nonneg big] by blast
  have np': "next_page \<in> fst ` set corpus"
    using np mkeys by (metis list.set_map)
  let ?counts = "setitem counts page (c + 1)"
  have keys: "map fst ?counts = map fst corpus"
    using keys_setitem_present [OF pc] Suc.prems(1) by simp
  have nn: "\<forall>x\<in>set ?counts. 0 \<le> snd x"
    using set_update_subset [of page "c + 1" counts] Suc.prems(2) c0
    by (auto simp: setitem_def)
  have total: "sum_list (map snd ?counts) = sum_list (map snd counts) + 1"
    using sum_list_setitem [OF c, of "c + 1"] by simp
  obtain counts' where
    run: "sample_loop_f64 rnd corpus damping_factor (Suc i) m ?counts next_page = Inr counts'"
    and k': "map fst counts' = map fst corpus"
    and n': "\<forall>x\<in>set counts'. 0 \<le> snd x"
    and s': "sum_list (map snd counts') = sum_list (map snd ?counts) + int m"
    using Suc.IH [OF keys nn np'] by blast
  have "sample_loop_f64 rnd corpus damping_factor i (Suc m) counts page = Inr counts'"
    using tm gc ch run by simp
  with k' n' s' total show ?case by simp
qed

lemma count_le_total:
  "\<forall>x\<in>set counts. 0 \<le> snd x \<Longrightarrow> x \<in> set counts \<Longrightarrow>
   snd x \<le> sum_list (map snd counts :: int list)"
proof (induction counts)
  case Nil
  then show ?case by simp
next
  case (Cons y counts)
  have rest: "0 \<le> sum_list (map snd counts)"
    using Cons.prems(1) by (intro sum_list_nonneg) auto
  show ?case
  proof (cases "x = y")
    case True
    then show ?thesis using rest by simp
  next
    case False
    then have "snd x \<le> sum_list (map snd counts)" using Cons by simp
    moreover have "0 \<le> snd y" using Cons.prems(1) by simp
    ultimately show ?thesis by simp
  qed
qed

lemma sum_list_scaled_counts:
  "(\<Sum>x\<leftarrow>counts. real_of_int (snd x) * t) = real_of_int (sum_list (map snd counts)) * t"
  by (induction counts) (simp_all add: algebra_simps)

lemma normalised_counts_error:
  assumes "0 < n" and "n \<le> 2 ^ 53"
    and "\<forall>x\<in>set counts. 0 \<le> snd x" and "sum_list (map snd counts) = n"
  shows "\<bar>(\<Sum>x\<leftarrow>counts. f64 (f64 (real_of_int (snd x)) * f64 (1 / f64 (real_of_int n)))) - 1\<bar>
           \<le> 2 powi (- 51)"
proof -
  define tn where "tn = real_of_int n"
  define t where "t = f64 (1 / tn)"
  define eps :: real where "eps = 2 powi (- 53)"
  have tn: "0 < tn" "1 \<le> tn" using assms(1) by (simp_all add: tn_def)
  have "tn \<le> real_of_int (2 ^ 53)" unfolding tn_def using assms(2) by (simp only: of_int_le_iff)
  then have tn53: "tn \<le> 2 powi 53" by simp
  have fn: "f64 (real_of_int n) = tn"
    unfolding tn_def using assms(1,2) by (intro f64_of_int) simp_all
  have eps: "0 < eps" "eps \<le> 1" by (simp_all add: eps_def power_int_minus_divide)
  have inv: "eps \<le> 1 / tn"
  proof -
    have "eps = 1 / 2 powi 53" by (simp add: eps_def power_int_minus_divide)
    also have "\<dots> \<le> 1 / tn" using tn tn53 by (intro divide_left_mono) (auto intro: mult_pos_pos)
    finally show ?thesis .
  qed
  have small: "(2::real) powi (- 1022) \<le> eps"
    unfolding eps_def by (intro power_int_increasing) simp_all
  have "\<bar>t - 1 / tn\<bar> \<le> eps * (1 / tn)"
    unfolding t_def eps_def using small inv by (intro f64_rel_error) (simp add: eps_def)
  then have terr: "\<bar>t - 1 / tn\<bar> \<le> eps / tn" by simp
  have tlow: "eps \<le> t"
    unfolding t_def eps_def using inv by (intro f64_ge_power) (simp_all add: eps_def)
  have t0: "0 < t" using tlow eps by linarith
  have "\<bar>tn * t - 1\<bar> = tn * \<bar>t - 1 / tn\<bar>"
  proof -
    have "tn * t - 1 = tn * (t - 1 / tn)" using tn by (simp add: algebra_simps)
    then show ?thesis using tn by (simp add: abs_mult)
  qed
  also have "\<dots> \<le> tn * (eps / tn)" using terr tn by (intro mult_left_mono) simp_all
  also have "\<dots> = eps" using tn by simp
  finally have nerr: "\<bar>tn * t - 1\<bar> \<le> eps" .
  then have ntle: "tn * t \<le> 1 + eps" by linarith
  have each: "\<bar>f64 (f64 (real_of_int (snd x)) * t) - real_of_int (snd x) * t\<bar>
                \<le> eps * (real_of_int (snd x) * t)" if x: "x \<in> set counts" for x
  proof -
    have c0: "0 \<le> snd x" using assms(3) x by simp
    have "snd x \<le> n" using count_le_total [OF assms(3) x] assms(4) by simp
    then have "snd x \<le> 2 ^ 53" using assms(2) by simp
    then have exact: "f64 (real_of_int (snd x)) = real_of_int (snd x)"
      using c0 by (intro f64_of_int)
    show ?thesis
    proof (cases "snd x = 0")
      case True
      then show ?thesis by (simp add: f64_zero)
    next
      case False
      then have "1 \<le> real_of_int (snd x)" using c0 by simp
      then have "t \<le> real_of_int (snd x) * t" using t0 by simp
      then have "2 powi (- 1022) \<le> real_of_int (snd x) * t" using tlow small by linarith
      from f64_rel_error [OF this] show ?thesis by (simp add: exact eps_def)
    qed
  qed
  let ?v = "\<lambda>x. f64 (f64 (real_of_int (snd x)) * t)"
  have "(\<Sum>x\<leftarrow>counts. ?v x) - 1 =
          (\<Sum>x\<leftarrow>counts. ?v x - real_of_int (snd x) * t) + (tn * t - 1)"
    by (simp add: sum_list_subtractf sum_list_scaled_counts assms(4) tn_def)
  then have "\<bar>(\<Sum>x\<leftarrow>counts. ?v x) - 1\<bar> \<le>
          \<bar>\<Sum>x\<leftarrow>counts. ?v x - real_of_int (snd x) * t\<bar> + \<bar>tn * t - 1\<bar>"
    by linarith
  also have "\<bar>\<Sum>x\<leftarrow>counts. ?v x - real_of_int (snd x) * t\<bar> \<le>
          (\<Sum>x\<leftarrow>counts. \<bar>?v x - real_of_int (snd x) * t\<bar>)"
    using sum_list_abs [of "map (\<lambda>x. ?v x - real_of_int (snd x) * t) counts"]
    by (simp add: comp_def)
  also have "\<dots> \<le> (\<Sum>x\<leftarrow>counts. eps * (real_of_int (snd x) * t))"
    by (rule sum_list_mono) (rule each)
  also have "\<dots> = eps * (tn * t)"
    by (simp add: sum_list_const_mult sum_list_scaled_counts assms(4) tn_def)
  also have "eps * (tn * t) \<le> eps * (1 + eps)"
    using ntle eps by (intro mult_left_mono) simp_all
  also have "eps * (1 + eps) \<le> eps * 2" using eps by (intro mult_left_mono) simp_all
  finally have "\<bar>(\<Sum>x\<leftarrow>counts. ?v x) - 1\<bar> \<le> eps * 2 + eps"
    using nerr by linarith
  also have "eps * 2 + eps \<le> 2 powi (- 51)"
    by (simp add: eps_def power_int_minus_divide)
  finally show ?thesis by (simp add: t_def fn)
qed

lemma visits_Nil: "visits [] p = 0"
  by (simp add: visits_def)

lemma visits_Cons: "visits (q # walk) p = (if q = p then visits walk p + 1 else visits walk p)"
  by (simp add: visits_def)

lemma map_untouched:
  "page \<notin> fst ` set counts \<Longrightarrow>
   map (\<lambda>(p, v). (p, if p = page then f v else v)) counts = counts"
  by (induction counts) auto

lemma setitem_increment:
  "distinct (map fst counts) \<Longrightarrow> map_of counts page = Some c \<Longrightarrow>
   setitem counts page (c + 1) =
     map (\<lambda>(p, v). (p, if p = page then v + 1 else v)) counts"
proof (induction counts)
  case Nil
  then show ?case by simp
next
  case (Cons x counts)
  obtain k v where x: "x = (k, v)" by (cases x)
  show ?case
  proof (cases "k = page")
    case True
    then have "page \<notin> fst ` set counts" using Cons.prems(1) x by auto
    from map_untouched [OF this, of "\<lambda>v. v + 1"] True Cons.prems(2) x
    show ?thesis by (simp add: setitem_def)
  next
    case False
    then have "map_of counts page = Some c" using Cons.prems(2) x by simp
    moreover have "distinct (map fst counts)" using Cons.prems(1) by simp
    ultimately show ?thesis using Cons.IH False x by (simp add: setitem_def)
  qed
qed

lemma sample_loop_f64_visits:
  assumes "wf_corpus corpus" and "graph_invariant corpus" and "length corpus \<le> 2 ^ 63"
    and "0 < damping_factor" and "damping_factor < 1"
  shows "map fst counts = map fst corpus \<Longrightarrow> page \<in> fst ` set corpus \<Longrightarrow>
         sample_loop_f64 rnd corpus damping_factor i m counts page =
           Inr (map (\<lambda>(p, v). (p, v + visits (walk_f64 rnd corpus damping_factor i page m) p))
                  counts) \<and>
         length (walk_f64 rnd corpus damping_factor i page m) = m \<and>
         set (walk_f64 rnd corpus damping_factor i page m) \<subseteq> fst ` set corpus"
proof (induction m arbitrary: i counts page)
  case 0
  then show ?case by (simp add: visits_Nil case_prod_unfold)
next
  case (Suc m)
  have dk: "distinct (map fst corpus)" using assms(1) by (simp add: wf_corpus_def)
  obtain model where tm: "transition_model_f64 corpus page damping_factor = Inr model"
    and mkeys: "map fst model = map fst corpus" and nonneg: "\<forall>x\<in>set model. 0 \<le> snd x"
    and big: "\<exists>x\<in>set model. 2 powi (- 65) \<le> snd x"
    using transition_model_f64_weights [OF assms(1,2) Suc.prems(2) assms(3,4,5)] by blast
  have pc: "page \<in> fst ` set counts"
    using Suc.prems by (metis list.set_map)
  then have "map_of counts page \<noteq> None" by (simp add: map_of_eq_None_iff)
  then obtain c where c: "map_of counts page = Some c" by auto
  then have gc: "getitem counts page = Inr c" by (simp add: getitem_def)
  have "model \<noteq> []" using mkeys Suc.prems(2) by auto
  then obtain next_page where ch: "choices_f64 (rnd i) model = Inr next_page"
    and np: "next_page \<in> fst ` set model"
    using choices_f64_member [OF _ nonneg big] by blast
  have np': "next_page \<in> fst ` set corpus"
    using np mkeys by (metis list.set_map)
  define counts1 where "counts1 = map (\<lambda>(p, v). (p, if p = page then v + 1 else v)) counts"
  have inc: "setitem counts page (c + 1) = counts1"
    unfolding counts1_def using Suc.prems(1) dk c by (intro setitem_increment) simp_all
  have keys: "map fst counts1 = map fst corpus"
    using Suc.prems(1) by (simp add: counts1_def case_prod_unfold comp_def)
  define rest where "rest = walk_f64 rnd corpus damping_factor (Suc i) next_page m"
  have IH: "sample_loop_f64 rnd corpus damping_factor (Suc i) m counts1 next_page =
        Inr (map (\<lambda>(p, v). (p, v + visits rest p)) counts1)"
    and len: "length rest = m" and sub: "set rest \<subseteq> fst ` set corpus"
    using Suc.IH [OF keys np', of "Suc i"] by (simp_all add: rest_def)
  have w: "walk_f64 rnd corpus damping_factor i page (Suc m) = page # rest"
    using tm ch by (simp add: rest_def)
  have "map (\<lambda>(p, v). (p, v + visits rest p)) counts1 =
        map (\<lambda>(p, v). (p, v + visits (page # rest) p)) counts"
    by (simp add: counts1_def case_prod_unfold comp_def visits_Cons)
  then have "sample_loop_f64 rnd corpus damping_factor i (Suc m) counts page =
        Inr (map (\<lambda>(p, v). (p, v + visits (page # rest) p)) counts)"
    using tm gc ch inc IH by simp
  then show ?case using w len sub Suc.prems(2) by simp
qed

lemma visits_nonneg: "0 \<le> visits walk p"
  by (simp add: visits_def)

lemma visits_total:
  assumes "distinct ks"
  shows "set walk \<subseteq> set ks \<Longrightarrow> (\<Sum>p\<leftarrow>ks. visits walk p) = int (length walk)"
proof (induction walk)
  case Nil
  then show ?case by (simp add: visits_Nil)
next
  case (Cons q walk)
  have q: "q \<in> set ks" using Cons.prems by simp
  have "(\<Sum>p\<leftarrow>ks. visits (q # walk) p) =
          (\<Sum>p\<leftarrow>ks. visits walk p + (if q = p then 1 else 0))"
    by (rule arg_cong [where f = sum_list], rule map_cong) (simp_all add: visits_Cons)
  also have "\<dots> = (\<Sum>p\<leftarrow>ks. visits walk p) + (\<Sum>p\<leftarrow>ks. if q = p then 1 else 0)"
    by (simp add: sum_list_addf)
  also have "(\<Sum>p\<leftarrow>ks. if q = p then 1 else 0) = (\<Sum>p\<in>set ks. if q = p then 1 else (0::int))"
    by (rule sum_list_distinct_conv_sum_set [OF assms])
  also have "\<dots> = 1" using q by simp
  finally show ?case using Cons by simp
qed

lemma sample_loop_f64_one_page:
  "sample_loop_f64 rnd one_page damping_factor i m [(''A'', c)] ''A'' = Inr [(''A'', c + int m)]"
proof (induction m arbitrary: i c)
  case 0
  then show ?case by simp
next
  case (Suc m)
  have tm: "transition_model_f64 one_page ''A'' damping_factor = Inr [(''A'', 1)]"
    by (simp add: transition_model_f64_def one_page_def getitem_def setitem_def f64_eval)
  have ch: "choices_f64 (rnd i) [(''A'', 1)] = Inr ''A''"
    by (simp add: choices_f64_def sum_f64_def f64_eval)
  show ?case using tm ch Suc [of "Suc i" "c + 1"]
    by (simp add: getitem_def setitem_def)
qed

text \<open>
  Claim C9 says that the values returned by \<^verbatim>\<open>sample_pagerank\<close> sum to 1 exactly. On a
  graph of one page with 49 samples the single value returned is \<open>49 * (1.0 / 49)\<close>, which
  on doubles is \<open>1 - 2 ^ -53\<close>.
\<close>

theorem sample_pagerank_f64_one_page:
  "one_page \<noteq> [] \<and> 0 < f64 0.85 \<and> f64 0.85 < 1 \<and> (0::int) < 49 \<and>
   sample_pagerank_f64 (fixed_source 0) one_page (f64 0.85) 49 = Inr [(''A'', 1 - 2 powi (- 53))] \<and>
   sum_list (map snd [(''A'', 1 - 2 powi (- 53) :: real)]) \<noteq> 1"
proof -
  have "sample_pagerank_f64 (fixed_source 0) one_page (f64 0.85) 49 =
          Inr [(''A'', 1 - 2 powi (- 53))]"
    using sample_loop_f64_one_page [of "fixed_source 0" "f64 0.85" 1 "nat 49" 0]
    by (simp add: sample_pagerank_f64_def choice_def one_page_def fromkeys_def setitem_def
        f64_eval)
  then show ?thesis by (simp add: f64_eval one_page_def)
qed

text \<open>
  Claim C9, amended. For every non-empty graph (a dict of sets of at most \<open>2 ^ 63\<close> pages
  that satisfies the Graph invariant), every damping factor in \<open>(0, 1)\<close>, every sample
  count \<open>0 < n \<le> 2 ^ 53\<close> and every random source, \<^verbatim>\<open>sample_pagerank\<close> on doubles returns
  a mapping whose keys are the pages of the graph, in the graph's order. The value of a
  page is the number of the \<open>n\<close> steps of the random walk that are on that page,
  multiplied by the double \<open>1.0 / n\<close>; these values sum to 1 within \<open>2 ^ -51\<close>.
\<close>

theorem sample_pagerank_f64_normalized:
  assumes "wf_corpus corpus" and "graph_invariant corpus" and "corpus \<noteq> []"
    and "length corpus \<le> 2 ^ 63"
    and "0 < damping_factor" and "damping_factor < 1" and "0 < n" and "n \<le> 2 ^ 53"
  shows "\<exists>start walk ranks.
           choice (rnd 0) (map fst corpus) = Inr start \<and>
           walk = walk_f64 rnd corpus damping_factor 1 start (nat n) \<and>
           length walk = nat n \<and> set walk \<subseteq> set (map fst corpus) \<and>
           sample_pagerank_f64 rnd corpus damping_factor n = Inr ranks \<and>
           ranks = map (\<lambda>p. (p, f64 (f64 (real_of_int (visits walk p)) *
                                      f64 (1 / f64 (real_of_int n)))))
                       (map fst corpus) \<and>
           \<bar>sum_list (map snd ranks) - 1\<bar> \<le> 2 powi (- 51)"
proof -
  define ks where "ks = map fst corpus"
  have dk: "distinct ks" using assms(1) by (simp add: wf_corpus_def ks_def)
  obtain start where ch: "choice (rnd 0) ks = Inr start" and st: "start \<in> fst ` set corpus"
    using choice_member [of ks "rnd 0"] assms(3) by (auto simp: ks_def)
  define walk where "walk = walk_f64 rnd corpus damping_factor 1 start (nat n)"
  define counts where "counts = map (\<lambda>p. (p, visits walk p)) ks"
  have init: "fromkeys ks (0::int) = map (\<lambda>k. (k, 0)) ks" by (rule fromkeys_distinct [OF dk])
  have ikeys: "map fst (fromkeys ks (0::int)) = map fst corpus"
    unfolding init by (simp add: comp_def ks_def)
  have loop: "sample_loop_f64 rnd corpus damping_factor 1 (nat n) (fromkeys ks 0) start =
        Inr (map (\<lambda>(p, v). (p, v + visits walk p)) (fromkeys ks 0))"
    and len: "length walk = nat n" and sub: "set walk \<subseteq> fst ` set corpus"
    using sample_loop_f64_visits [OF assms(1,2,4,5,6) ikeys st, of rnd 1 "nat n"]
    by (simp_all add: walk_def)
  have "map (\<lambda>(p, v). (p, v + visits walk p)) (fromkeys ks 0) = counts"
    by (simp add: init counts_def comp_def)
  with loop have run: "sample_loop_f64 rnd corpus damping_factor 1 (nat n) (fromkeys ks 0) start =
        Inr counts" by simp
  have ckeys: "map fst counts = ks" by (simp add: counts_def comp_def)
  have cnn: "\<forall>x\<in>set counts. 0 \<le> snd x" by (auto simp: counts_def visits_nonneg)
  have sub': "set walk \<subseteq> set ks" using sub by (simp add: ks_def)
  have "sum_list (map snd counts) = (\<Sum>p\<leftarrow>ks. visits walk p)"
    by (simp add: counts_def comp_def)
  then have total: "sum_list (map snd counts) = n"
    using visits_total [OF dk sub'] len assms(7) by simp
  define ti where "ti = f64 (1 / f64 (real_of_int n))"
  define ranks where "ranks = map (\<lambda>p. (p, f64 (f64 (real_of_int (visits walk p)) * ti))) ks"
  have ranks: "ranks = map (\<lambda>(key, val). (key, f64 (f64 (real_of_int val) * ti))) counts"
    by (simp add: ranks_def counts_def comp_def)
  have dc: "distinct (map fst counts)" using dk ckeys by simp
  have "map fst (map (\<lambda>(key, val). (key, real_of_int val)) counts) = map fst counts"
    by (simp add: case_prod_unfold comp_def)
  from fold_setitem_in_place [OF dc this, of "\<lambda>key val. f64 (f64 (real_of_int val) * ti)"]
  have norm: "fold (\<lambda>(key, val) d. setitem d key (f64 (f64 (real_of_int val) * ti))) counts
                (map (\<lambda>(key, val). (key, real_of_int val)) counts) = ranks"
    by (simp add: ranks)
  have res: "sample_pagerank_f64 rnd corpus damping_factor n = Inr ranks"
    using ch run total assms(7) norm
    by (simp add: sample_pagerank_f64_def Let_def ti_def ks_def [symmetric])
  have "sum_list (map snd ranks) =
          (\<Sum>x\<leftarrow>counts. f64 (f64 (real_of_int (snd x)) * f64 (1 / f64 (real_of_int n))))"
    by (simp add: ranks ti_def case_prod_unfold comp_def)
  then have err: "\<bar>sum_list (map snd ranks) - 1\<bar> \<le> 2 powi (- 51)"
    using normalised_counts_error [OF assms(7,8) cnn total] by simp
  show ?thesis
    using ch walk_def len sub' res ranks_def err unfolding ks_def ti_def by blast
qed

theorem sample_pagerank_f64_normalized_witness:
  "wf_corpus pages \<and> graph_invariant pages \<and> pages \<noteq> [] \<and> length pages \<le> 2 ^ 63 \<and>
   0 < f64 0.85 \<and> f64 0.85 < 1 \<and> (0::int) < 3 \<and> (3::int) \<le> 2 ^ 53 \<and>
   (\<exists>start walk ranks.
      choice (fixed_source (1 / 2) 0) (map fst pages) = Inr start \<and>
      walk = walk_f64 (fixed_source (1 / 2)) pages (f64 0.85) 1 start (nat 3) \<and>
      length walk = nat 3 \<and> set walk \<subseteq> set (map fst pages) \<and>
      sample_pagerank_f64 (fixed_source (1 / 2)) pages (f64 0.85) 3 = Inr ranks \<and>
      ranks = map (\<lambda>p. (p, f64 (f64 (real_of_int (visits walk p)) *
                                 f64 (1 / f64 (real_of_int 3)))))
                  (map fst pages) \<and>
      \<bar>sum_list (map snd ranks) - 1\<bar> \<le> 2 powi (- 51))"
proof -
  have d: "0 < f64 0.85" "f64 0.85 < 1" by (simp_all add: f64_eval)
  have n: "(0::int) < 3" "(3::int) \<le> 2 ^ 53" by simp_all
  have w: "graph_invariant pages" "pages \<noteq> []" using pages_wf by simp_all
  have l: "length pages \<le> 2 ^ 63" by (simp add: pages_def)
  show ?thesis
    using sample_pagerank_f64_normalized [OF pages_wf_corpus w l d n, of "fixed_source (1 / 2)"]
      pages_wf_corpus w l d by simp
qed

section \<open>iterate_pagerank on doubles\<close>

lemma neumaier_step_eval:
  "neumaier_step x (s, c) =
     (f64 (s + x),
      if \<bar>x\<bar> \<le> \<bar>s\<bar> then f64 (c + f64 (f64 (s - f64 (s + x)) + x))
      else f64 (c + f64 (f64 (x - f64 (s + x)) + s)))"
  by (simp add: neumaier_step_def Let_def)

lemma iterate_loop_f64_continue:
  assumes "iteration_f64 float_sum corpus damping_factor pagerank = Inr new_pagerank \<and>
           \<not> check_dict_f64 new_pagerank pagerank"
  shows "iterate_loop_f64 float_sum corpus damping_factor pagerank =
           iterate_loop_f64 float_sum corpus damping_factor new_pagerank"
  using assms by (subst iterate_loop_f64.simps) simp

lemma iterate_loop_f64_stop:
  assumes "iteration_f64 float_sum corpus damping_factor pagerank = Inr new_pagerank \<and>
           check_dict_f64 new_pagerank pagerank"
  shows "iterate_loop_f64 float_sum corpus damping_factor pagerank = Some (Inr pagerank)"
  using assms by (subst iterate_loop_f64.simps) simp











lemma playground_seq_pass1:
  "iteration_f64 sum_f64 pages (f64 0.85)
     [(''1.html'', 1 / 4),
      (''2.html'', 1 / 4),
      (''3.html'', 1 / 4),
      (''4.html'', 1 / 4)] =
   Inr [(''1.html'', 1632554864921805 / 18014398509481984),
      (''2.html'', 1843661097454797 / 4503599627370496),
      (''3.html'', 1843661097454797 / 4503599627370496),
      (''4.html'', 1632554864921805 / 18014398509481984)] \<and>
   \<not> check_dict_f64
     [(''1.html'', 1632554864921805 / 18014398509481984),
      (''2.html'', 1843661097454797 / 4503599627370496),
      (''3.html'', 1843661097454797 / 4503599627370496),
      (''4.html'', 1632554864921805 / 18014398509481984)]
     [(''1.html'', 1 / 4),
      (''2.html'', 1 / 4),
      (''3.html'', 1 / 4),
      (''4.html'', 1 / 4)]"
  by (simp add: iteration_f64_def normalize_f64_def sum_f64_def pages_def f64_085
      getitem_def setitem_def f64_eval)

lemma playground_seq_pass2:
  "iteration_f64 sum_f64 pages (f64 0.85)
     [(''1.html'', 1632554864921805 / 18014398509481984),
      (''2.html'', 1843661097454797 / 4503599627370496),
      (''3.html'', 1843661097454797 / 4503599627370496),
      (''4.html'', 1632554864921805 / 18014398509481984)] =
   Inr [(''1.html'', 511228926450729 / 9007199254740992),
      (''2.html'', 3992370700919767 / 9007199254740992),
      (''3.html'', 3992370700919767 / 9007199254740992),
      (''4.html'', 511228926450729 / 9007199254740992)] \<and>
   \<not> check_dict_f64
     [(''1.html'', 511228926450729 / 9007199254740992),
      (''2.html'', 3992370700919767 / 9007199254740992),
      (''3.html'', 3992370700919767 / 9007199254740992),
      (''4.html'', 511228926450729 / 9007199254740992)]
     [(''1.html'', 1632554864921805 / 18014398509481984),
      (''2.html'', 1843661097454797 / 4503599627370496),
      (''3.html'', 1843661097454797 / 4503599627370496),
      (''4.html'', 1632554864921805 / 18014398509481984)]"
  by (simp add: iteration_f64_def normalize_f64_def sum_f64_def pages_def f64_085
      getitem_def setitem_def f64_eval)

lemma playground_seq_pass3:
  "iteration_f64 sum_f64 pages (f64 0.85)
     [(''1.html'', 511228926450729 / 9007199254740992),
      (''2.html'', 3992370700919767 / 9007199254740992),
      (''3.html'', 3992370700919767 / 9007199254740992),
      (''4.html'', 511228926450729 / 9007199254740992)] =
   Inr [(''1.html'', 3571248951388537 / 72057594037927936),
      (''2.html'', 4057193508446929 / 9007199254740992),
      (''3.html'', 4057193508446929 / 9007199254740992),
      (''4.html'', 3571248951388537 / 72057594037927936)] \<and>
   \<not> check_dict_f64
     [(''1.html'', 3571248951388537 / 72057594037927936),
      (''2.html'', 4057193508446929 / 9007199254740992),
      (''3.html'', 4057193508446929 / 9007199254740992),
      (''4.html'', 3571248951388537 / 72057594037927936)]
     [(''1.html'', 511228926450729 / 9007199254740992),
      (''2.html'', 3992370700919767 / 9007199254740992),
      (''3.html'', 3992370700919767 / 9007199254740992),
      (''4.html'', 511228926450729 / 9007199254740992)]"
  by (simp add: iteration_f64_def normalize_f64_def sum_f64_def pages_def f64_085
      getitem_def setitem_def f64_eval)

lemma playground_seq_pass4:
  "iteration_f64 sum_f64 pages (f64 0.85)
     [(''1.html'', 3571248951388537 / 72057594037927936),
      (''2.html'', 4057193508446929 / 9007199254740992),
      (''3.html'', 4057193508446929 / 9007199254740992),
      (''4.html'', 3571248951388537 / 72057594037927936)] =
   Inr [(''1.html'', 1730525089296181 / 36028797018963968),
      (''2.html'', 4070968355046451 / 9007199254740992),
      (''3.html'', 4070968355046451 / 9007199254740992),
      (''4.html'', 1730525089296181 / 36028797018963968)] \<and>
   \<not> check_dict_f64
     [(''1.html'', 1730525089296181 / 36028797018963968),
      (''2.html'', 4070968355046451 / 9007199254740992),
      (''3.html'', 4070968355046451 / 9007199254740992),
      (''4.html'', 1730525089296181 / 36028797018963968)]
     [(''1.html'', 3571248951388537 / 72057594037927936),
      (''2.html'', 4057193508446929 / 9007199254740992),
      (''3.html'', 4057193508446929 / 9007199254740992),
      (''4.html'', 3571248951388537 / 72057594037927936)]"
  by (simp add: iteration_f64_def normalize_f64_def sum_f64_def pages_def f64_085
      getitem_def setitem_def f64_eval)

lemma playground_seq_pass5:
  "iteration_f64 sum_f64 pages (f64 0.85)
     [(''1.html'', 1730525089296181 / 36028797018963968),
      (''2.html'', 4070968355046451 / 9007199254740992),
      (''3.html'', 4070968355046451 / 9007199254740992),
      (''4.html'', 1730525089296181 / 36028797018963968)] =
   Inr [(''1.html'', 3437632939373175 / 72057594037927936),
      (''2.html'', 4073895509948849 / 9007199254740992),
      (''3.html'', 4073895509948849 / 9007199254740992),
      (''4.html'', 3437632939373175 / 72057594037927936)] \<and>
   check_dict_f64
     [(''1.html'', 3437632939373175 / 72057594037927936),
      (''2.html'', 4073895509948849 / 9007199254740992),
      (''3.html'', 4073895509948849 / 9007199254740992),
      (''4.html'', 3437632939373175 / 72057594037927936)]
     [(''1.html'', 1730525089296181 / 36028797018963968),
      (''2.html'', 4070968355046451 / 9007199254740992),
      (''3.html'', 4070968355046451 / 9007199254740992),
      (''4.html'', 1730525089296181 / 36028797018963968)]"
  by (simp add: iteration_f64_def normalize_f64_def sum_f64_def pages_def f64_085
      getitem_def setitem_def f64_eval)

lemma playground_comp_pass1:
  "iteration_f64 sum_compensated_f64 pages (f64 0.85)
     [(''1.html'', 1 / 4),
      (''2.html'', 1 / 4),
      (''3.html'', 1 / 4),
      (''4.html'', 1 / 4)] =
   Inr [(''1.html'', 1632554864921805 / 18014398509481984),
      (''2.html'', 1843661097454797 / 4503599627370496),
      (''3.html'', 1843661097454797 / 4503599627370496),
      (''4.html'', 1632554864921805 / 18014398509481984)] \<and>
   \<not> check_dict_f64
     [(''1.html'', 1632554864921805 / 18014398509481984),
      (''2.html'', 1843661097454797 / 4503599627370496),
      (''3.html'', 1843661097454797 / 4503599627370496),
      (''4.html'', 1632554864921805 / 18014398509481984)]
     [(''1.html'', 1 / 4),
      (''2.html'', 1 / 4),
      (''3.html'', 1 / 4),
      (''4.html'', 1 / 4)]"
  by (simp add: iteration_f64_def normalize_f64_def sum_compensated_f64_def neumaier_step_eval pages_def f64_085
      getitem_def setitem_def f64_eval)

lemma playground_comp_pass2:
  "iteration_f64 sum_compensated_f64 pages (f64 0.85)
     [(''1.html'', 1632554864921805 / 18014398509481984),
      (''2.html'', 1843661097454797 / 4503599627370496),
      (''3.html'', 1843661097454797 / 4503599627370496),
      (''4.html'', 1632554864921805 / 18014398509481984)] =
   Inr [(''1.html'', 511228926450729 / 9007199254740992),
      (''2.html'', 3992370700919767 / 9007199254740992),
      (''3.html'', 3992370700919767 / 9007199254740992),
      (''4.html'', 511228926450729 / 9007199254740992)] \<and>
   \<not> check_dict_f64
     [(''1.html'', 511228926450729 / 9007199254740992),
      (''2.html'', 3992370700919767 / 9007199254740992),
      (''3.html'', 3992370700919767 / 9007199254740992),
      (''4.html'', 511228926450729 / 9007199254740992)]
     [(''1.html'', 1632554864921805 / 18014398509481984),
      (''2.html'', 1843661097454797 / 4503599627370496),
      (''3.html'', 1843661097454797 / 4503599627370496),
      (''4.html'', 1632554864921805 / 18014398509481984)]"
  by (simp add: iteration_f64_def normalize_f64_def sum_compensated_f64_def neumaier_step_eval pages_def f64_085
      getitem_def setitem_def f64_eval)

lemma playground_comp_pass3:
  "iteration_f64 sum_compensated_f64 pages (f64 0.85)
     [(''1.html'', 511228926450729 / 9007199254740992),
      (''2.html'', 3992370700919767 / 9007199254740992),
      (''3.html'', 3992370700919767 / 9007199254740992),
      (''4.html'', 511228926450729 / 9007199254740992)] =
   Inr [(''1.html'', 3571248951388537 / 72057594037927936),
      (''2.html'', 4057193508446929 / 9007199254740992),
      (''3.html'', 4057193508446929 / 9007199254740992),
      (''4.html'', 3571248951388537 / 72057594037927936)] \<and>
   \<not> check_dict_f64
     [(''1.html'', 3571248951388537 / 72057594037927936),
      (''2.html'', 4057193508446929 / 9007199254740992),
      (''3.html'', 4057193508446929 / 9007199254740992),
      (''4.html'', 3571248951388537 / 72057594037927936)]
     [(''1.html'', 511228926450729 / 9007199254740992),
      (''2.html'', 3992370700919767 / 9007199254740992),
      (''3.html'', 3992370700919767 / 9007199254740992),
      (''4.html'', 511228926450729 / 9007199254740992)]"
  by (simp add: iteration_f64_def normalize_f64_def sum_compensated_f64_def neumaier_step_eval pages_def f64_085
      getitem_def setitem_def f64_eval)

lemma playground_comp_pass4:
  "iteration_f64 sum_compensated_f64 pages (f64 0.85)
     [(''1.html'', 3571248951388537 / 72057594037927936),
      (''2.html'', 4057193508446929 / 9007199254740992),
      (''3.html'', 4057193508446929 / 9007199254740992),
      (''4.html'', 3571248951388537 / 72057594037927936)] =
   Inr [(''1.html'', 1730525089296181 / 36028797018963968),
      (''2.html'', 4070968355046451 / 9007199254740992),
      (''3.html'', 4070968355046451 / 9007199254740992),
      (''4.html'', 1730525089296181 / 36028797018963968)] \<and>
   \<not> check_dict_f64
     [(''1.html'', 1730525089296181 / 36028797018963968),
      (''2.html'', 4070968355046451 / 9007199254740992),
      (''3.html'', 4070968355046451 / 9007199254740992),
      (''4.html'', 1730525089296181 / 36028797018963968)]
     [(''1.html'', 3571248951388537 / 72057594037927936),
      (''2.html'', 4057193508446929 / 9007199254740992),
      (''3.html'', 4057193508446929 / 9007199254740992),
      (''4.html'', 3571248951388537 / 72057594037927936)]"
  by (simp add: iteration_f64_def normalize_f64_def sum_compensated_f64_def neumaier_step_eval pages_def f64_085
      getitem_def setitem_def f64_eval)

lemma playground_comp_pass5:
  "iteration_f64 sum_compensated_f64 pages (f64 0.85)
     [(''1.html'', 1730525089296181 / 36028797018963968),
      (''2.html'', 4070968355046451 / 9007199254740992),
      (''3.html'', 4070968355046451 / 9007199254740992),
      (''4.html'', 1730525089296181 / 36028797018963968)] =
   Inr [(''1.html'', 3437632939373175 / 72057594037927936),
      (''2.html'', 4073895509948849 / 9007199254740992),
      (''3.html'', 4073895509948849 / 9007199254740992),
      (''4.html'', 3437632939373175 / 72057594037927936)] \<and>
   check_dict_f64
     [(''1.html'', 3437632939373175 / 72057594037927936),
      (''2.html'', 4073895509948849 / 9007199254740992),
      (''3.html'', 4073895509948849 / 9007199254740992),
      (''4.html'', 3437632939373175 / 72057594037927936)]
     [(''1.html'', 1730525089296181 / 36028797018963968),
      (''2.html'', 4070968355046451 / 9007199254740992),
      (''3.html'', 4070968355046451 / 9007199254740992),
      (''4.html'', 1730525089296181 / 36028797018963968)]"
  by (simp add: iteration_f64_def normalize_f64_def sum_compensated_f64_def neumaier_step_eval pages_def f64_085
      getitem_def setitem_def f64_eval)





lemma pages_start:
  "fromkeys (map fst pages) (f64 (1 / f64 (real (length pages)))) =
     [(''1.html'', 1 / 4),
      (''2.html'', 1 / 4),
      (''3.html'', 1 / 4),
      (''4.html'', 1 / 4)]"
  by (simp add: pages_def fromkeys_def setitem_def f64_eval)

lemma playground_f64_returns:
  "iterate_pagerank_f64 sum_f64 pages (f64 0.85) =
     Some (Inr [(''1.html'', 1730525089296181 / 36028797018963968),
           (''2.html'', 4070968355046451 / 9007199254740992),
           (''3.html'', 4070968355046451 / 9007199254740992),
           (''4.html'', 1730525089296181 / 36028797018963968)]) \<and>
   iterate_pagerank_f64 sum_compensated_f64 pages (f64 0.85) =
     Some (Inr [(''1.html'', 1730525089296181 / 36028797018963968),
           (''2.html'', 4070968355046451 / 9007199254740992),
           (''3.html'', 4070968355046451 / 9007199254740992),
           (''4.html'', 1730525089296181 / 36028797018963968)])"
proof -
  have "iterate_loop_f64 sum_f64 pages (f64 0.85)
     [(''1.html'', 1 / 4),
      (''2.html'', 1 / 4),
      (''3.html'', 1 / 4),
      (''4.html'', 1 / 4)] =
     Some (Inr [(''1.html'', 1730525089296181 / 36028797018963968),
           (''2.html'', 4070968355046451 / 9007199254740992),
           (''3.html'', 4070968355046451 / 9007199254740992),
           (''4.html'', 1730525089296181 / 36028797018963968)])"
    by (simp only: iterate_loop_f64_continue [OF playground_seq_pass1]
        iterate_loop_f64_continue [OF playground_seq_pass2]
        iterate_loop_f64_continue [OF playground_seq_pass3]
        iterate_loop_f64_continue [OF playground_seq_pass4]
        iterate_loop_f64_stop [OF playground_seq_pass5])
  moreover have "iterate_loop_f64 sum_compensated_f64 pages (f64 0.85)
     [(''1.html'', 1 / 4),
      (''2.html'', 1 / 4),
      (''3.html'', 1 / 4),
      (''4.html'', 1 / 4)] =
     Some (Inr [(''1.html'', 1730525089296181 / 36028797018963968),
           (''2.html'', 4070968355046451 / 9007199254740992),
           (''3.html'', 4070968355046451 / 9007199254740992),
           (''4.html'', 1730525089296181 / 36028797018963968)])"
    by (simp only: iterate_loop_f64_continue [OF playground_comp_pass1]
        iterate_loop_f64_continue [OF playground_comp_pass2]
        iterate_loop_f64_continue [OF playground_comp_pass3]
        iterate_loop_f64_continue [OF playground_comp_pass4]
        iterate_loop_f64_stop [OF playground_comp_pass5])
  ultimately show ?thesis
    by (simp add: iterate_pagerank_f64_def Let_def pages_start) (simp add: pages_def)
qed


end
